theory Spec2Isabelle
  imports Main "HOL-Library.AList"
begin

text \<open>
  A shallow embedding of the core of unirbac-js: the permission matcher
  \<^verbatim>\<open>Permission.match\<close>, the engine \<^verbatim>\<open>RBACEngine\<close> with \<^verbatim>\<open>addRole\<close>, \<^verbatim>\<open>addPolicy\<close>, \<^verbatim>\<open>can\<close>
  and the role resolver \<^verbatim>\<open>getPermissions\<close>, and the resolver of the earlier engine,
  \<^verbatim>\<open>resolvePermissions\<close> with \<^verbatim>\<open>resolveRoles\<close>. Strings are \<open>string\<close>, arrays are lists,
  \<^verbatim>\<open>Map\<close> and \<^verbatim>\<open>Set\<close> are lists in insertion order, a rejected promise is \<open>Inl\<close>.
\<close>

section \<open>Permission matcher (packages/core/src/permissions/index.ts)\<close>

text \<open>
  JavaScript's \<^verbatim>\<open>String.prototype.split(sep)\<close> for a one-character separator: the
  string is cut at every occurrence of the separator; the result always has at least one
  element (\<^verbatim>\<open>"".split(":")\<close> is \<^verbatim>\<open>[""]\<close>, \<^verbatim>\<open>"a:".split(":")\<close> is \<^verbatim>\<open>["a", ""]\<close>).
\<close>

fun split :: "char \<Rightarrow> string \<Rightarrow> string list" where
  "split d [] = [[]]"
| "split d (c # cs) =
     (if c = d then [] # split d cs
      else (case split d cs of [] \<Rightarrow> [[c]] | w # ws \<Rightarrow> (c # w) # ws))"

text \<open>
  \<^verbatim>\<open>a || b\<close> on arrays: every JavaScript object, an empty array included, is truthy, so
  the right operand is evaluated only for a falsy left operand, which an array never is.
\<close>

definition truthy_array :: "'a list \<Rightarrow> bool" where
  "truthy_array xs = True"

definition or_array :: "'a list \<Rightarrow> 'a list \<Rightarrow> 'a list" where
  "or_array a b = (if truthy_array a then a else b)"

text \<open>
  \<^verbatim>\<open>parts[i]\<close>: reading an array past its end gives \<^verbatim>\<open>undefined\<close>, modelled as
  \<open>None\<close>.
\<close>

definition at_index :: "'a list \<Rightarrow> nat \<Rightarrow> 'a option" where
  "at_index xs i = (if i < length xs then Some (xs ! i) else None)"

text \<open>
  \<^verbatim>\<open>!permissionPart\<close>: \<^verbatim>\<open>undefined\<close> and the empty string are falsy, every other string
  is truthy.
\<close>

definition falsy_part :: "string option \<Rightarrow> bool" where
  "falsy_part p = (case p of None \<Rightarrow> True | Some s \<Rightarrow> s = [])"

text \<open>The \<^verbatim>\<open>for\<close> loop of \<^verbatim>\<open>Permission.match\<close>, from index \<open>i\<close> on, with the final
  length comparison.\<close>

function match_loop :: "string list \<Rightarrow> string list \<Rightarrow> nat \<Rightarrow> bool" where
  "match_loop patternParts permissionParts i =
     (if i < length patternParts then
        (let patternPart = patternParts ! i;
             permissionPart = at_index permissionParts i
         in if patternPart = ''**'' then True
            else if patternPart = ''*'' then match_loop patternParts permissionParts (i + 1)
            else if falsy_part permissionPart then False
            else if Some patternPart \<noteq> permissionPart then False
            else match_loop patternParts permissionParts (i + 1))
      else length permissionParts = length patternParts)"
  by pat_completeness auto
termination
  by (relation "measure (\<lambda>(patternParts, permissionParts, i). length patternParts - i)") auto

declare match_loop.simps [simp del]

definition Permission_match :: "string \<Rightarrow> string \<Rightarrow> bool" where
  "Permission_match pattern permission =
     (if pattern = permission then True
      else
        (let patternParts = or_array (split CHR '':'' pattern) (split CHR ''.'' pattern);
             permissionParts = or_array (split CHR '':'' permission) (split CHR ''.'' permission)
         in match_loop patternParts permissionParts 0))"

section \<open>Data model (packages/core/src/types)\<close>

text \<open>
  The records carry the source's field names behind a prefix naming the type, because
  \<^verbatim>\<open>Role\<close> and \<^verbatim>\<open>Subject\<close> both have a field \<^verbatim>\<open>permissions\<close>, \<^verbatim>\<open>Subject\<close> and the engine
  both have \<^verbatim>\<open>roles\<close>, and \<^verbatim>\<open>id\<close> is a constant of HOL. An optional field is an
  \<open>option\<close>. \<^verbatim>\<open>level\<close> is an integer; \<^verbatim>\<open>attributes\<close> and the authorization context
  are opaque to the engine and stay type variables.
\<close>

record role =
  role_name :: string
  role_level :: int
  role_permissions :: "string list"
  role_inherits :: "string list option"
  role_denies :: "string list option"

record 'a subject =
  subject_id :: string
  subject_roles :: "string list"
  subject_permissions :: "string list option"
  subject_attributes :: "'a option"

record Authorization =
  auth_allowed :: bool
  auth_reason :: "string option"
  auth_permission :: string

text \<open>
  A policy callback \<^verbatim>\<open>PolicyFn\<close> receives \<^verbatim>\<open>{subject, context}\<close>. It may read and write
  whatever it can reach (the tests count its invocations in a variable; the subject comes
  by reference; its closure may hold the engine), so it takes and returns a world \<open>'w\<close>;
  it either returns a boolean (directly or through a promise that \<^verbatim>\<open>await\<close> resolves) or
  throws (or its promise rejects), which is \<open>Inl\<close>.
\<close>

datatype error = Thrown string

type_synonym ('a, 'c, 'w) PolicyFn = "'a subject \<Rightarrow> 'c \<Rightarrow> 'w \<Rightarrow> (error + bool) \<times> 'w"

text \<open>
  A JavaScript \<^verbatim>\<open>Map\<close> with string keys is an association list in insertion order:
  \<^verbatim>\<open>get\<close> is \<^const>\<open>map_of\<close>, and \<^verbatim>\<open>set\<close> is \<^const>\<open>AList.update\<close>, which replaces the
  value of a key that is present and appends a new key at the end.
\<close>

record ('a, 'c, 'w) RBACEngine =
  engine_roles :: "(string \<times> role) list"
  engine_policies :: "(string \<times> ('a, 'c, 'w) PolicyFn) list"

definition new_RBACEngine :: "('a, 'c, 'w) RBACEngine" where
  "new_RBACEngine = \<lparr>engine_roles = [], engine_policies = []\<rparr>"

text \<open>
  A JavaScript \<^verbatim>\<open>Set\<close> is a duplicate-free list in insertion order: \<^verbatim>\<open>add\<close> appends an
  element that is not yet a member, \<^verbatim>\<open>new Set(iterable)\<close> adds the elements one by one,
  and \<^verbatim>\<open>new Set(undefined)\<close> is empty.
\<close>

definition set_add :: "'a \<Rightarrow> 'a list \<Rightarrow> 'a list" where
  "set_add x xs = (if x \<in> set xs then xs else xs @ [x])"

definition new_Set :: "'a list option \<Rightarrow> 'a list" where
  "new_Set iterable = (case iterable of None \<Rightarrow> [] | Some xs \<Rightarrow> fold set_add xs [])"

section \<open>The engine (packages/core/src/engine/RBACEngine.ts)\<close>

definition addRole ::
  "role \<Rightarrow> ('a, 'c, 'w) RBACEngine \<Rightarrow> ('a, 'c, 'w) RBACEngine" where
  "addRole role e = e\<lparr>engine_roles := AList.update (role_name role) role (engine_roles e)\<rparr>"

definition addPolicy ::
  "string \<Rightarrow> ('a, 'c, 'w) PolicyFn \<Rightarrow> ('a, 'c, 'w) RBACEngine \<Rightarrow> ('a, 'c, 'w) RBACEngine" where
  "addPolicy permission policyCallback e =
     e\<lparr>engine_policies := AList.update permission policyCallback (engine_policies e)\<rparr>"

text \<open>
  \<^verbatim>\<open>getPermissions\<close> keeps two local sets, \<^verbatim>\<open>prms\<close> and \<^verbatim>\<open>visitedRoles\<close>, which the
  closure \<^verbatim>\<open>visited\<close> updates. The closure is a function on that pair; the
  \<^verbatim>\<open>forEach\<close> over a list of role names, which calls \<^verbatim>\<open>visited\<close> on each name in order,
  is \<open>visited_forEach\<close>.
\<close>

record gp_state =
  prms :: "string list"
  visitedRoles :: "string list"

function visited :: "(string \<times> role) list \<Rightarrow> string \<Rightarrow> gp_state \<Rightarrow> gp_state"
  and visited_forEach :: "(string \<times> role) list \<Rightarrow> string list \<Rightarrow> gp_state \<Rightarrow> gp_state"
where
  "visited roles roleName st =
     (if roleName \<in> set (visitedRoles st) then st
      else
        (case map_of roles roleName of
           None \<Rightarrow> st\<lparr>visitedRoles := set_add roleName (visitedRoles st)\<rparr>
         | Some role \<Rightarrow>
             (case role_inherits role of
                None \<Rightarrow>
                  st\<lparr>visitedRoles := set_add roleName (visitedRoles st),
                     prms := fold set_add (role_permissions role) (prms st)\<rparr>
              | Some parents \<Rightarrow>
                  visited_forEach roles parents
                    (st\<lparr>visitedRoles := set_add roleName (visitedRoles st),
                        prms := fold set_add (role_permissions role) (prms st)\<rparr>))))"
| "visited_forEach roles [] st = st"
| "visited_forEach roles (roleName # rest) st =
     visited_forEach roles rest (visited roles roleName st)"
  by pat_completeness auto

text \<open>Termination: every call of \<open>visited\<close> that gets past the membership test marks a
  name that was unmarked, so the number of registered names still unmarked decreases along
  the recursion into \<^verbatim>\<open>inherits\<close>; along a \<^verbatim>\<open>forEach\<close> it never grows and the list gets
  shorter.\<close>

lemma set_set_add [simp]: "set (set_add x xs) = insert x (set xs)"
  by (auto simp: set_add_def)

lemma set_fold_set_add [simp]: "set (fold set_add xs acc) = set acc \<union> set xs"
  by (induction xs arbitrary: acc) auto

lemma visited_grows_dom:
  "visited_visited_forEach_dom (Inl (roles, roleName, st)) \<Longrightarrow>
     set (visitedRoles st) \<subseteq> set (visitedRoles (visited roles roleName st))"
  "visited_visited_forEach_dom (Inr (roles, names, st)) \<Longrightarrow>
     set (visitedRoles st) \<subseteq> set (visitedRoles (visited_forEach roles names st))"
proof (induction roles roleName st and roles names st rule: visited_visited_forEach.pinduct)
  case (1 roles roleName st)
  show ?case
  proof (cases "roleName \<in> set (visitedRoles st)")
    case True
    then show ?thesis using "1.hyps" by (simp add: visited.psimps)
  next
    case False
    show ?thesis
    proof (cases "map_of roles roleName")
      case None
      then show ?thesis using "1.hyps" False by (auto simp add: visited.psimps)
    next
      case (Some role)
      note registered = this
      show ?thesis
      proof (cases "role_inherits role")
        case None
        then show ?thesis using "1.hyps" False registered by (auto simp add: visited.psimps)
      next
        case (Some parents)
        from "1.IH" [OF False registered Some]
        show ?thesis
          using "1.hyps" False Some registered by (auto simp add: visited.psimps)
      qed
    qed
  qed
next
  case (2 roles st)
  then show ?case by (simp add: visited_forEach.psimps)
next
  case (3 roles roleName rest st)
  then show ?case by (auto simp add: visited_forEach.psimps)
qed

definition unvisited :: "(string \<times> role) list \<Rightarrow> string list \<Rightarrow> nat" where
  "unvisited roles vs = card (fst ` set roles - set vs)"

lemma unvisited_mono: "set vs \<subseteq> set vs' \<Longrightarrow> unvisited roles vs' \<le> unvisited roles vs"
  unfolding unvisited_def by (intro card_mono) auto

lemma unvisited_less:
  assumes "map_of roles roleName = Some role" "roleName \<notin> set vs"
    "insert roleName (set vs) \<subseteq> set vs'"
  shows "unvisited roles vs' < unvisited roles vs"
proof -
  have "roleName \<in> fst ` set roles"
    using map_of_SomeD [OF assms(1)] by force
  then have "fst ` set roles - set vs' \<subset> fst ` set roles - set vs"
    using assms(2,3) by auto
  then show ?thesis
    unfolding unvisited_def by (intro psubset_card_mono) auto
qed

lemma visited_total: "All visited_visited_forEach_dom"
proof (relation "inv_image (less_than <*lex*> less_than)
         (\<lambda>x. case x of
                 Inl (roles, roleName, st) \<Rightarrow> (unvisited roles (visitedRoles st), 0::nat)
               | Inr (roles, names, st) \<Rightarrow> (unvisited roles (visitedRoles st), Suc (length names)))",
       goal_cases)
  case 1
  show ?case by (intro wf_inv_image wf_lex_prod wf_less_than)
next
  case (2 roles roleName st role parents)
  then show ?case
    by (simp add: unvisited_less)
next
  case (3 roles roleName rest st)
  then show ?case by simp
next
  case (4 roles roleName rest st)
  then show ?case
    using visited_grows_dom(1) [of roles roleName st]
    by (simp add: unvisited_mono le_imp_less_or_eq)
qed

termination visited
  by (rule visited_total)

declare visited.simps [simp del]

definition getPermissions :: "('a, 'c, 'w) RBACEngine \<Rightarrow> 'a subject \<Rightarrow> string list" where
  "getPermissions e subject =
     prms (visited_forEach (engine_roles e) (subject_roles subject)
            \<lparr>prms = new_Set (subject_permissions subject), visitedRoles = new_Set None\<rparr>)"

text \<open>
  \<^verbatim>\<open>can\<close> is an \<^verbatim>\<open>async\<close> function: it resolves to an \<^verbatim>\<open>Authorization\<close> (\<open>Inr\<close>) or
  rejects with what the awaited policy threw (\<open>Inl\<close>). The world is threaded through the
  one place that can touch it, the call of the policy.
\<close>

definition can ::
  "('a, 'c, 'w) RBACEngine \<Rightarrow> 'a subject \<Rightarrow> string \<Rightarrow> 'c \<Rightarrow> 'w \<Rightarrow> (error + Authorization) \<times> 'w"
where
  "can e subject permission ctx w =
     (let permissions = getPermissions e subject;
          matchedPermission = list_ex (\<lambda>perm. Permission_match perm permission) permissions
      in if \<not> matchedPermission then
           (Inr \<lparr>auth_allowed = False,
                 auth_reason = Some ''Permission not found in subject roles/permissions'',
                 auth_permission = permission\<rparr>, w)
         else
           (case map_of (engine_policies e) permission of
              Some policy \<Rightarrow>
                (case policy subject ctx w of
                   (Inl err, w') \<Rightarrow> (Inl err, w')
                 | (Inr result, w') \<Rightarrow>
                     if result then
                       (Inr \<lparr>auth_allowed = True, auth_reason = None,
                             auth_permission = permission\<rparr>, w')
                     else
                       (Inr \<lparr>auth_allowed = False,
                             auth_reason = Some ''Access denied by policy'',
                             auth_permission = permission\<rparr>, w'))
            | None \<Rightarrow>
                (Inr \<lparr>auth_allowed = True, auth_reason = None,
                      auth_permission = permission\<rparr>, w)))"

text \<open>
  The caller's subject is passed by reference, and \<^verbatim>\<open>can\<close> hands that reference on to the
  policy; a policy's closure may also hold the engine. So the objects live in a heap \<open>'w\<close>,
  which is the world the policy reads and writes: \<open>engine_at\<close> and \<open>subject_at\<close> read the
  engine and the subject object out of the heap. \<^verbatim>\<open>can\<close> reads both before it calls the
  policy (\<^verbatim>\<open>getPermissions\<close>, then \<^verbatim>\<open>this.policies.get\<close>) and reads neither afterwards.
\<close>

definition can_by_reference ::
  "('w \<Rightarrow> ('a, 'c, 'w) RBACEngine) \<Rightarrow> ('w \<Rightarrow> 'a subject) \<Rightarrow> string \<Rightarrow> 'c \<Rightarrow> 'w
     \<Rightarrow> (error + Authorization) \<times> 'w"
where
  "can_by_reference engine_at subject_at permission ctx h =
     can (engine_at h) (subject_at h) permission ctx h"

section \<open>The earlier engine (unnamed/part_001)\<close>

text \<open>
  \<^verbatim>\<open>resolveRoles\<close> keeps a set \<^verbatim>\<open>visited\<close> and an array \<^verbatim>\<open>roles\<close>; its closure \<^verbatim>\<open>visit\<close>
  first recurses into \<^verbatim>\<open>inherits\<close> and then pushes the role.
\<close>

record rr_state =
  rr_visited :: "string list"
  rr_roles :: "role list"

function visit :: "(string \<times> role) list \<Rightarrow> string \<Rightarrow> rr_state \<Rightarrow> rr_state"
  and visit_forEach :: "(string \<times> role) list \<Rightarrow> string list \<Rightarrow> rr_state \<Rightarrow> rr_state"
where
  "visit roles name st =
     (if name \<in> set (rr_visited st) then st
      else
        (case map_of roles name of
           None \<Rightarrow> st\<lparr>rr_visited := set_add name (rr_visited st)\<rparr>
         | Some role \<Rightarrow>
             (case role_inherits role of
                None \<Rightarrow>
                  st\<lparr>rr_visited := set_add name (rr_visited st), rr_roles := rr_roles st @ [role]\<rparr>
              | Some parents \<Rightarrow>
                  (let st' = visit_forEach roles parents
                               (st\<lparr>rr_visited := set_add name (rr_visited st)\<rparr>)
                   in st'\<lparr>rr_roles := rr_roles st' @ [role]\<rparr>))))"
| "visit_forEach roles [] st = st"
| "visit_forEach roles (name # rest) st = visit_forEach roles rest (visit roles name st)"
  by pat_completeness auto

lemma visit_grows_dom:
  "visit_visit_forEach_dom (Inl (roles, name, st)) \<Longrightarrow>
     set (rr_visited st) \<subseteq> set (rr_visited (visit roles name st))"
  "visit_visit_forEach_dom (Inr (roles, names, st)) \<Longrightarrow>
     set (rr_visited st) \<subseteq> set (rr_visited (visit_forEach roles names st))"
proof (induction roles name st and roles names st rule: visit_visit_forEach.pinduct)
  case (1 roles name st)
  show ?case
  proof (cases "name \<in> set (rr_visited st)")
    case True
    then show ?thesis using "1.hyps" by (simp add: visit.psimps)
  next
    case False
    show ?thesis
    proof (cases "map_of roles name")
      case None
      then show ?thesis using "1.hyps" False by (auto simp add: visit.psimps)
    next
      case (Some role)
      note registered = this
      show ?thesis
      proof (cases "role_inherits role")
        case None
        then show ?thesis using "1.hyps" False registered by (auto simp add: visit.psimps)
      next
        case (Some parents)
        from "1.IH" [OF False registered Some]
        show ?thesis
          using "1.hyps" False Some registered by (auto simp add: visit.psimps Let_def)
      qed
    qed
  qed
next
  case (2 roles st)
  then show ?case by (simp add: visit_forEach.psimps)
next
  case (3 roles name rest st)
  then show ?case by (auto simp add: visit_forEach.psimps)
qed

lemma visit_total: "All visit_visit_forEach_dom"
proof (relation "inv_image (less_than <*lex*> less_than)
         (\<lambda>x. case x of
                 Inl (roles, name, st) \<Rightarrow> (unvisited roles (rr_visited st), 0::nat)
               | Inr (roles, names, st) \<Rightarrow> (unvisited roles (rr_visited st), Suc (length names)))",
       goal_cases)
  case 1
  show ?case by (intro wf_inv_image wf_lex_prod wf_less_than)
next
  case (2 roles name st role parents)
  then show ?case
    by (simp add: unvisited_less)
next
  case (3 roles name rest st)
  then show ?case by simp
next
  case (4 roles name rest st)
  then show ?case
    using visit_grows_dom(1) [of roles name st]
    by (simp add: unvisited_mono le_imp_less_or_eq)
qed

termination visit
  by (rule visit_total)

declare visit.simps [simp del]

text \<open>
  \<^verbatim>\<open>roles.sort((a, b) => b.level - a.level)\<close>: \<^verbatim>\<open>Array.prototype.sort\<close> is stable, and
  the comparator puts the higher level first; a stable sort on the negated level.
\<close>

definition resolveRoles :: "(string \<times> role) list \<Rightarrow> string list \<Rightarrow> role list" where
  "resolveRoles roles roleNames =
     sort_key (\<lambda>r. - role_level r)
       (rr_roles (visit_forEach roles roleNames \<lparr>rr_visited = new_Set None, rr_roles = []\<rparr>))"

definition resolvePermissions :: "('a, 'c, 'w) RBACEngine \<Rightarrow> 'a subject \<Rightarrow> string list" where
  "resolvePermissions e subject =
     (let prms0 = new_Set (subject_permissions subject);
          resolvedRoles = resolveRoles (engine_roles e) (subject_roles subject);
          prms1 = fold (\<lambda>role acc. fold set_add (role_permissions role) acc) resolvedRoles prms0
      in case subject_permissions subject of
           None \<Rightarrow> prms1
         | Some ps \<Rightarrow> fold set_add ps prms1)"

definition can_earlier ::
  "('a, 'c, 'w) RBACEngine \<Rightarrow> 'a subject \<Rightarrow> string \<Rightarrow> 'c \<Rightarrow> 'w \<Rightarrow> (error + Authorization) \<times> 'w"
where
  "can_earlier e subject permission ctx w =
     (let permissions = resolvePermissions e subject;
          matchedPermission = list_ex (\<lambda>perm. Permission_match perm permission) permissions
      in if \<not> matchedPermission then
           (Inr \<lparr>auth_allowed = False,
                 auth_reason = Some ''Permission not found in subject roles/permissions'',
                 auth_permission = permission\<rparr>, w)
         else
           (case map_of (engine_policies e) permission of
              Some policy \<Rightarrow>
                (case policy subject ctx w of
                   (Inl err, w') \<Rightarrow> (Inl err, w')
                 | (Inr result, w') \<Rightarrow>
                     if result then
                       (Inr \<lparr>auth_allowed = True, auth_reason = None,
                             auth_permission = permission\<rparr>, w')
                     else
                       (Inr \<lparr>auth_allowed = False,
                             auth_reason = Some ''Access denied by policy'',
                             auth_permission = permission\<rparr>, w'))
            | None \<Rightarrow>
                (Inr \<lparr>auth_allowed = True, auth_reason = None,
                      auth_permission = permission\<rparr>, w)))"

section \<open>Notions of the specification\<close>

text \<open>
  The inheritance graph of a registry: a registered role points to the names in its
  \<^verbatim>\<open>inherits\<close> list; an unregistered name points nowhere and owns no permission. The
  effective permission set of a subject is its direct permissions together with the
  permissions of every role reachable from its role names.
\<close>

definition parents_of :: "(string \<times> role) list \<Rightarrow> string \<Rightarrow> string set" where
  "parents_of roles n =
     (case map_of roles n of
        None \<Rightarrow> {}
      | Some r \<Rightarrow> (case role_inherits r of None \<Rightarrow> {} | Some ps \<Rightarrow> set ps))"

definition perms_of :: "(string \<times> role) list \<Rightarrow> string \<Rightarrow> string set" where
  "perms_of roles n = (case map_of roles n of None \<Rightarrow> {} | Some r \<Rightarrow> set (role_permissions r))"

definition inherits_rel :: "(string \<times> role) list \<Rightarrow> (string \<times> string) set" where
  "inherits_rel roles = {(n, m). m \<in> parents_of roles n}"

definition reachable :: "(string \<times> role) list \<Rightarrow> string set \<Rightarrow> string set" where
  "reachable roles roots = (inherits_rel roles)\<^sup>* `` roots"

definition direct_permissions :: "'a subject \<Rightarrow> string set" where
  "direct_permissions subject =
     (case subject_permissions subject of None \<Rightarrow> {} | Some ps \<Rightarrow> set ps)"

definition effectivePermissions :: "(string \<times> role) list \<Rightarrow> 'a subject \<Rightarrow> string set" where
  "effectivePermissions roles subject =
     direct_permissions subject
     \<union> (\<Union>n \<in> reachable roles (set (subject_roles subject)). perms_of roles n)"

text \<open>
  Two rewritings of the input that the claims speak of: \<open>known_roles\<close> drops the names
  that are not registered from a list of names, and \<open>with_inherits f\<close> rewrites the
  \<^verbatim>\<open>inherits\<close> list of every role by \<open>f\<close>.
\<close>

definition known_roles :: "(string \<times> role) list \<Rightarrow> string list \<Rightarrow> string list" where
  "known_roles roles names = filter (\<lambda>n. map_of roles n \<noteq> None) names"

definition with_inherits ::
  "(string list \<Rightarrow> string list) \<Rightarrow> (string \<times> role) list \<Rightarrow> (string \<times> role) list" where
  "with_inherits f roles =
     map (\<lambda>(k, r). (k, r\<lparr>role_inherits := map_option f (role_inherits r)\<rparr>)) roles"

text \<open>
  The matcher as the specification words it, on the segments between colons: the pattern
  is read up to its first \<^verbatim>\<open>**\<close>; there every pattern segment consumes one segment of the
  permission, which a literal must equal; with no \<^verbatim>\<open>**\<close> the segment counts agree.
\<close>

definition first_dstar :: "string list \<Rightarrow> nat" where
  "first_dstar ps = length (takeWhile (\<lambda>p. p \<noteq> ''**'') ps)"

definition spec_match :: "string \<Rightarrow> string \<Rightarrow> bool" where
  "spec_match P Q =
     (let ps = split CHR '':'' P; qs = split CHR '':'' Q
      in list_all (\<lambda>i. i < length qs \<and> (ps ! i = ''*'' \<or> qs ! i = ps ! i)) [0..<first_dstar ps]
         \<and> (''**'' \<in> set ps \<or> length qs = length ps))"

text \<open>What the loop of the matcher asks of index \<open>j\<close>: nothing under a \<^verbatim>\<open>*\<close>, and under
  a literal a non-empty permission segment equal to it.\<close>

definition seg_ok :: "string list \<Rightarrow> string list \<Rightarrow> nat \<Rightarrow> bool" where
  "seg_ok ps qs j = (ps ! j = ''*'' \<or> (ps ! j \<noteq> [] \<and> j < length qs \<and> qs ! j = ps ! j))"

text \<open>
  What a depth-first traversal has achieved when it returns: started with the marked set
  \<open>V\<close> on the roots \<open>R\<close>, it ends with the marked set \<open>V'\<close>. \<open>gained\<close> are the
  permissions, \<open>gained_roles\<close> the roles, of the names marked on the way.
\<close>

definition dfs_post :: "(string \<times> role) list \<Rightarrow> string set \<Rightarrow> string set \<Rightarrow> string set \<Rightarrow> bool" where
  "dfs_post roles R V V' \<longleftrightarrow>
     V \<subseteq> V' \<and> R \<subseteq> V' \<and> (\<forall>m \<in> V' - V. parents_of roles m \<subseteq> V')
     \<and> V' - V \<subseteq> reachable roles R"

definition gained :: "(string \<times> role) list \<Rightarrow> string set \<Rightarrow> string set \<Rightarrow> string set" where
  "gained roles V V' = (\<Union>m \<in> V' - V. perms_of roles m)"

definition gained_roles :: "(string \<times> role) list \<Rightarrow> string set \<Rightarrow> string set \<Rightarrow> role set" where
  "gained_roles roles V V' = {r. \<exists>m \<in> V' - V. map_of roles m = Some r}"

section \<open>Registries of the tests\<close>

text \<open>
  Registries for the examples, after the engine's tests: the roles \<^verbatim>\<open>viewer\<close> and
  \<^verbatim>\<open>editor\<close>, the circular roles \<^verbatim>\<open>roleA\<close> and \<^verbatim>\<open>roleB\<close>, an ownership policy, a policy
  that counts its invocations, a policy that throws and a policy that reads the length of
  \<^verbatim>\<open>subject.roles\<close>. The world is a counter of type \<open>nat\<close>, the context the identifier of
  an owner.
\<close>

definition viewer :: role where
  "viewer = \<lparr>role_name = ''viewer'', role_level = 10,
              role_permissions = [''post:read'', ''comment:read''],
              role_inherits = None, role_denies = None\<rparr>"

definition editor :: role where
  "editor = \<lparr>role_name = ''editor'', role_level = 50,
              role_permissions = [''post:write'', ''post:edit''],
              role_inherits = Some [''viewer''], role_denies = None\<rparr>"

definition ownership_policy :: "(unit, string, nat) PolicyFn" where
  "ownership_policy subject ctx w = (Inr (ctx = subject_id subject), w)"

definition counting_policy :: "(unit, string, nat) PolicyFn" where
  "counting_policy subject ctx w = (Inr True, Suc w)"

definition failing_policy :: "(unit, string, nat) PolicyFn" where
  "failing_policy subject ctx w = (Inl (Thrown ''lookup failed''), Suc w)"

definition blog_engine :: "(unit, string, nat) RBACEngine" where
  "blog_engine =
     addPolicy ''post:write'' failing_policy
       (addPolicy ''post:delete'' counting_policy
         (addPolicy ''post:edit'' ownership_policy
           (addRole editor (addRole viewer new_RBACEngine))))"

definition an_editor :: "unit subject" where
  "an_editor = \<lparr>subject_id = ''user-1'', subject_roles = [''editor''],
                 subject_permissions = Some [], subject_attributes = None\<rparr>"

definition roleA :: role where
  "roleA = \<lparr>role_name = ''roleA'', role_level = 10, role_permissions = [''perm:a''],
             role_inherits = Some [''roleB''], role_denies = None\<rparr>"

definition roleB :: role where
  "roleB = \<lparr>role_name = ''roleB'', role_level = 10, role_permissions = [''perm:b''],
             role_inherits = Some [''roleA''], role_denies = None\<rparr>"

definition circular_engine :: "(unit, string, nat) RBACEngine" where
  "circular_engine = addRole roleB (addRole roleA new_RBACEngine)"

definition holder_of_roleA :: "unit subject" where
  "holder_of_roleA = \<lparr>subject_id = ''1'', subject_roles = [''roleA''],
                       subject_permissions = Some [], subject_attributes = None\<rparr>"

definition a_stranger :: "unit subject" where
  "a_stranger = \<lparr>subject_id = ''1'', subject_roles = [''nonexistent''],
                  subject_permissions = Some [], subject_attributes = None\<rparr>"

definition viewer_redefined :: role where
  "viewer_redefined = \<lparr>role_name = ''viewer'', role_level = 20,
                        role_permissions = [''post:read''],
                        role_inherits = None, role_denies = None\<rparr>"

definition user_role :: role where
  "user_role = \<lparr>role_name = ''user'', role_level = 10, role_permissions = [''post:edit''],
                 role_inherits = None, role_denies = None\<rparr>"

definition single_role_policy :: "(unit, string, nat) PolicyFn" where
  "single_role_policy subject ctx w = (Inr (length (subject_roles subject) = 1), w)"

definition single_role_engine :: "(unit, string, nat) RBACEngine" where
  "single_role_engine = addPolicy ''post:edit'' single_role_policy (addRole user_role new_RBACEngine)"

definition a_user :: "unit subject" where
  "a_user = \<lparr>subject_id = ''user-1'', subject_roles = [''user''],
              subject_permissions = Some [], subject_attributes = None\<rparr>"

text \<open>
  A heap that holds a role registry and a subject object, and a policy that writes to both:
  it pushes \<^verbatim>\<open>admin\<close> onto \<^verbatim>\<open>subject.roles\<close> and calls \<^verbatim>\<open>addRole\<close> on the engine it holds.
\<close>

record 'a heap =
  heap_roles :: "(string \<times> role) list"
  heap_subject :: "'a subject"

definition admin :: role where
  "admin = \<lparr>role_name = ''admin'', role_level = 100,
             role_permissions = [''post:delete'', ''user:manage''],
             role_inherits = Some [''editor''], role_denies = None\<rparr>"

definition promoting_policy :: "(unit, string, unit heap) PolicyFn" where
  "promoting_policy subject ctx h =
     (Inr True,
      h\<lparr>heap_subject :=
           (heap_subject h)\<lparr>subject_roles := subject_roles (heap_subject h) @ [''admin'']\<rparr>,
        heap_roles := AList.update (role_name admin) admin (heap_roles h)\<rparr>)"

definition promoting_engine :: "unit heap \<Rightarrow> (unit, string, unit heap) RBACEngine" where
  "promoting_engine h =
     \<lparr>engine_roles = heap_roles h, engine_policies = [(''post:edit'', promoting_policy)]\<rparr>"

definition a_heap :: "unit heap" where
  "a_heap = \<lparr>heap_roles = [(''user'', user_role)], heap_subject = a_user\<rparr>"

section \<open>Facts about the matcher\<close>

lemma split_not_Nil: "split d s \<noteq> []"
  by (induction s) (auto split: list.splits)

lemma split_single: "split d s = [w] \<longleftrightarrow> s = w \<and> d \<notin> set s"
proof (induction s arbitrary: w)
  case Nil
  show ?case by auto
next
  case (Cons c cs)
  show ?case
  proof (cases "c = d")
    case True
    then show ?thesis
      by (simp add: split_not_Nil)
  next
    case False
    obtain v vs where sp: "split d cs = v # vs"
      by (cases "split d cs") (simp_all add: split_not_Nil)
    show ?thesis
    proof (cases vs)
      case Nil
      with sp Cons.IH [of v] False show ?thesis
        by auto
    next
      case (Cons u us)
      with sp have "split d cs \<noteq> [x]" for x
        by simp
      with Cons.IH have "d \<in> set cs"
        by blast
      with sp Cons False show ?thesis
        by auto
    qed
  qed
qed

lemma length_split_one: "length (split d s) = 1 \<longleftrightarrow> d \<notin> set s"
proof -
  have "length (split d s) = 1 \<longleftrightarrow> (\<exists>w. split d s = [w])"
    by (cases "split d s") auto
  then show ?thesis
    by (simp add: split_single)
qed

lemma or_array_left [simp]: "or_array a b = a"
  by (simp add: or_array_def truthy_array_def)

lemma first_dstar_all: "first_dstar ps = length ps \<longleftrightarrow> ''**'' \<notin> set ps"
  unfolding first_dstar_def by (induction ps) auto

lemma first_dstar_drop:
  assumes "i < length ps" "ps ! i \<noteq> ''**''"
  shows "i + first_dstar (drop i ps) = Suc i + first_dstar (drop (Suc i) ps)"
proof -
  have "drop i ps = ps ! i # drop (Suc i) ps"
    using assms(1) by (simp add: Cons_nth_drop_Suc)
  then show ?thesis
    using assms(2) by (simp add: first_dstar_def)
qed

lemma first_dstar_drop_hit:
  assumes "i < length ps" "ps ! i = ''**''"
  shows "first_dstar (drop i ps) = 0"
proof -
  have "drop i ps = ps ! i # drop (Suc i) ps"
    using assms(1) by (simp add: Cons_nth_drop_Suc)
  then show ?thesis
    using assms(2) by (simp add: first_dstar_def)
qed

lemma match_loop_char:
  "i \<le> length ps \<Longrightarrow>
   match_loop ps qs i \<longleftrightarrow>
     (\<forall>j. i \<le> j \<and> j < i + first_dstar (drop i ps) \<longrightarrow> seg_ok ps qs j)
     \<and> (i + first_dstar (drop i ps) = length ps \<longrightarrow> length qs = length ps)"
proof (induction ps qs i rule: match_loop.induct)
  case (1 ps qs i)
  show ?case
  proof (cases "i < length ps")
    case False
    with "1.prems" have "i = length ps" by simp
    then show ?thesis
      by (auto simp add: match_loop.simps [of ps qs "length ps"] first_dstar_def)
  next
    case True
    show ?thesis
    proof (cases "ps ! i = ''**''")
      case dstar: True
      with True show ?thesis
        by (auto simp add: match_loop.simps [of ps qs i] first_dstar_drop_hit)
    next
      case nd: False
      let ?K = "Suc i + first_dstar (drop (Suc i) ps)"
      have K: "i + first_dstar (drop i ps) = ?K"
        using True nd by (rule first_dstar_drop)
      have range: "(\<forall>j. i \<le> j \<and> j < ?K \<longrightarrow> seg_ok ps qs j) \<longleftrightarrow>
                   seg_ok ps qs i \<and> (\<forall>j. Suc i \<le> j \<and> j < ?K \<longrightarrow> seg_ok ps qs j)"
        by (metis Suc_leI le_add1 le_eq_less_or_eq less_le_trans lessI Suc_leD)
      show ?thesis
      proof (cases "ps ! i = ''*''")
        case star: True
        have "match_loop ps qs i = match_loop ps qs (Suc i)"
          using True star by (simp add: match_loop.simps [of ps qs i])
        also have "\<dots> \<longleftrightarrow> (\<forall>j. Suc i \<le> j \<and> j < ?K \<longrightarrow> seg_ok ps qs j)
            \<and> (?K = length ps \<longrightarrow> length qs = length ps)"
          using "1.IH"(1) [OF True refl refl nd star] True by simp
        finally show ?thesis
          unfolding K range using star by (simp add: seg_ok_def)
      next
        case lit: False
        show ?thesis
        proof (cases "seg_ok ps qs i")
          case ok: True
          then have q: "ps ! i \<noteq> []" "i < length qs" "qs ! i = ps ! i"
            using lit by (simp_all add: seg_ok_def)
          have "match_loop ps qs i = match_loop ps qs (Suc i)"
            using True nd lit q
            by (simp add: match_loop.simps [of ps qs i] at_index_def falsy_part_def)
          also have "\<dots> \<longleftrightarrow> (\<forall>j. Suc i \<le> j \<and> j < ?K \<longrightarrow> seg_ok ps qs j)
              \<and> (?K = length ps \<longrightarrow> length qs = length ps)"
            using "1.IH"(2) [OF True refl refl nd lit] True q
            by (simp add: at_index_def falsy_part_def)
          finally show ?thesis
            unfolding K range using ok by simp
        next
          case bad: False
          then have "\<not> match_loop ps qs i"
            using True nd lit
            by (auto simp add: match_loop.simps [of ps qs i] at_index_def falsy_part_def seg_ok_def
                split: option.splits)
          then show ?thesis
            unfolding K range using bad by simp
        qed
      qed
    qed
  qed
qed

lemma match_loop_from_start:
  "match_loop ps qs 0 \<longleftrightarrow>
     (\<forall>j < first_dstar ps. seg_ok ps qs j) \<and> (''**'' \<notin> set ps \<longrightarrow> length qs = length ps)"
  using match_loop_char [of 0 ps qs] by (simp add: first_dstar_all)

lemma seg_ok_update:
  "ps ! i = ''*'' \<Longrightarrow> seg_ok ps (qs[i := x]) j = seg_ok ps qs j"
  by (cases "j = i") (simp_all add: seg_ok_def)

section \<open>Facts about role resolution\<close>

lemma dfs_post_skip: "n \<in> V \<Longrightarrow> dfs_post roles {n} V V"
  by (simp add: dfs_post_def)

lemma dfs_post_leaf: "parents_of roles n = {} \<Longrightarrow> dfs_post roles {n} V (insert n V)"
  by (auto simp: dfs_post_def reachable_def)

lemma dfs_post_node:
  assumes "n \<notin> V" "dfs_post roles (parents_of roles n) (insert n V) V'"
  shows "dfs_post roles {n} V V'"
proof -
  have "m \<in> reachable roles {n}" if "m \<in> reachable roles (parents_of roles n)" for m
  proof -
    from that obtain p where "p \<in> parents_of roles n" "(p, m) \<in> (inherits_rel roles)\<^sup>*"
      by (auto simp: reachable_def)
    moreover have "(n, p) \<in> inherits_rel roles"
      using calculation(1) by (simp add: inherits_rel_def)
    ultimately show ?thesis
      by (auto simp: reachable_def intro: converse_rtrancl_into_rtrancl)
  qed
  moreover have "n \<in> reachable roles {n}"
    by (simp add: reachable_def)
  ultimately show ?thesis
    using assms unfolding dfs_post_def by blast
qed

lemma dfs_post_Nil: "dfs_post roles {} V V"
  by (simp add: dfs_post_def)

lemma reachable_mono: "R \<subseteq> R' \<Longrightarrow> reachable roles R \<subseteq> reachable roles R'"
  by (auto simp: reachable_def)

lemma dfs_post_Cons:
  assumes "dfs_post roles {n} V V1" "dfs_post roles (set ns) V1 V'"
  shows "dfs_post roles (insert n (set ns)) V V'"
proof -
  have r1: "reachable roles {n} \<subseteq> reachable roles (insert n (set ns))"
    and r2: "reachable roles (set ns) \<subseteq> reachable roles (insert n (set ns))"
    by (auto intro!: reachable_mono)
  from assms have a: "V \<subseteq> V1" "n \<in> V1" "\<forall>m \<in> V1 - V. parents_of roles m \<subseteq> V1"
    "V1 - V \<subseteq> reachable roles {n}"
    and b: "V1 \<subseteq> V'" "set ns \<subseteq> V'" "\<forall>m \<in> V' - V1. parents_of roles m \<subseteq> V'"
    "V' - V1 \<subseteq> reachable roles (set ns)"
    by (simp_all add: dfs_post_def)
  have "V \<subseteq> V'" using a(1) b(1) by blast
  moreover have "insert n (set ns) \<subseteq> V'" using a(2) b(1,2) by blast
  moreover have "\<forall>m \<in> V' - V. parents_of roles m \<subseteq> V'"
  proof
    fix m assume "m \<in> V' - V"
    then consider "m \<in> V1 - V" | "m \<in> V' - V1" by blast
    then show "parents_of roles m \<subseteq> V'"
      using a(3) b(1,3) by cases blast+
  qed
  moreover have "V' - V \<subseteq> reachable roles (insert n (set ns))"
  proof
    fix m assume "m \<in> V' - V"
    then consider "m \<in> V1 - V" | "m \<in> V' - V1" by blast
    then show "m \<in> reachable roles (insert n (set ns))"
      using a(4) b(4) r1 r2 by cases blast+
  qed
  ultimately show ?thesis
    unfolding dfs_post_def by blast
qed

lemma dfs_post_top:
  assumes "dfs_post roles R {} V'"
  shows "V' = reachable roles R"
proof
  show "V' \<subseteq> reachable roles R"
    using assms by (auto simp: dfs_post_def)
next
  have closed: "m \<in> V'" if "n \<in> V'" "(n, m) \<in> inherits_rel roles" for n m
    using assms that by (auto simp: dfs_post_def inherits_rel_def)
  have "m \<in> V'" if "(r, m) \<in> (inherits_rel roles)\<^sup>*" "r \<in> V'" for r m
    using that by (induction rule: rtrancl_induct) (auto intro: closed)
  then show "reachable roles R \<subseteq> V'"
    using assms by (auto simp: dfs_post_def reachable_def)
qed


lemma gained_same [simp]: "gained roles V V = {}"
  by (simp add: gained_def)

lemma gained_node:
  assumes "n \<notin> V" "insert n V \<subseteq> V'"
  shows "gained roles V V' = perms_of roles n \<union> gained roles (insert n V) V'"
proof -
  have "V' - V = insert n (V' - insert n V)"
    using assms by blast
  then show ?thesis
    by (simp add: gained_def)
qed

lemma gained_trans:
  assumes "V \<subseteq> V1" "V1 \<subseteq> V'"
  shows "gained roles V V' = gained roles V V1 \<union> gained roles V1 V'"
proof -
  have "V' - V = (V1 - V) \<union> (V' - V1)"
    using assms by blast
  then show ?thesis
    by (simp add: gained_def)
qed

lemma dfs_post_sub: "dfs_post roles R V V' \<Longrightarrow> V \<subseteq> V'"
  by (simp add: dfs_post_def)

lemma dfs_post_roots: "dfs_post roles R V V' \<Longrightarrow> R \<subseteq> V'"
  by (simp add: dfs_post_def)

lemma visited_inv:
  "dfs_post roles {roleName} (set (visitedRoles st)) (set (visitedRoles (visited roles roleName st)))
   \<and> set (prms (visited roles roleName st)) =
       set (prms st) \<union> gained roles (set (visitedRoles st)) (set (visitedRoles (visited roles roleName st)))"
  "dfs_post roles (set names) (set (visitedRoles st)) (set (visitedRoles (visited_forEach roles names st)))
   \<and> set (prms (visited_forEach roles names st)) =
       set (prms st) \<union> gained roles (set (visitedRoles st)) (set (visitedRoles (visited_forEach roles names st)))"
proof (induction roles roleName st and roles names st rule: visited_visited_forEach.induct)
  case (1 roles roleName st)
  let ?V = "set (visitedRoles st)"
  show ?case
  proof (cases "roleName \<in> ?V")
    case True
    then show ?thesis
      by (simp add: visited.simps [of roles roleName st] dfs_post_skip)
  next
    case False
    show ?thesis
    proof (cases "map_of roles roleName")
      case None
      then have "parents_of roles roleName = {}" "perms_of roles roleName = {}"
        by (simp_all add: parents_of_def perms_of_def)
      then show ?thesis
        using False None dfs_post_leaf [of roles roleName ?V]
          gained_node [of roleName ?V "insert roleName ?V" roles]
        by (simp add: visited.simps [of roles roleName st])
    next
      case (Some role)
      note registered = this
      then have perms: "perms_of roles roleName = set (role_permissions role)"
        by (simp add: perms_of_def)
      show ?thesis
      proof (cases "role_inherits role")
        case None
        then have "parents_of roles roleName = {}"
          using registered by (simp add: parents_of_def)
        then show ?thesis
          using False None registered perms dfs_post_leaf [of roles roleName ?V]
            gained_node [of roleName ?V "insert roleName ?V" roles]
          by (simp add: visited.simps [of roles roleName st])
      next
        case (Some parents)
        let ?st2 = "st\<lparr>visitedRoles := set_add roleName (visitedRoles st),
                       prms := fold set_add (role_permissions role) (prms st)\<rparr>"
        let ?st' = "visited_forEach roles parents ?st2"
        have res: "visited roles roleName st = ?st'"
          using False registered Some by (simp add: visited.simps [of roles roleName st])
        have par: "parents_of roles roleName = set parents"
          using registered Some by (simp add: parents_of_def)
        from "1.IH" [OF False registered Some]
        have post: "dfs_post roles (set parents) (insert roleName ?V) (set (visitedRoles ?st'))"
          and ps: "set (prms ?st') = set (prms st) \<union> set (role_permissions role)
                     \<union> gained roles (insert roleName ?V) (set (visitedRoles ?st'))"
          by simp_all
        have "dfs_post roles {roleName} ?V (set (visitedRoles ?st'))"
          using False post par by (intro dfs_post_node) simp_all
        moreover have "gained roles ?V (set (visitedRoles ?st')) =
            perms_of roles roleName \<union> gained roles (insert roleName ?V) (set (visitedRoles ?st'))"
          using False dfs_post_sub [OF post] by (rule gained_node)
        ultimately show ?thesis
          unfolding res using ps perms by auto
      qed
    qed
  qed
next
  case (2 roles st)
  show ?case by (simp add: dfs_post_Nil)
next
  case (3 roles roleName rest st)
  let ?V = "set (visitedRoles st)"
  let ?st1 = "visited roles roleName st"
  let ?st' = "visited_forEach roles rest ?st1"
  from "3.IH"(1) have p1: "dfs_post roles {roleName} ?V (set (visitedRoles ?st1))"
    and g1: "set (prms ?st1) = set (prms st) \<union> gained roles ?V (set (visitedRoles ?st1))"
    by simp_all
  from "3.IH"(2) have p2: "dfs_post roles (set rest) (set (visitedRoles ?st1)) (set (visitedRoles ?st'))"
    and g2: "set (prms ?st') = set (prms ?st1) \<union> gained roles (set (visitedRoles ?st1)) (set (visitedRoles ?st'))"
    by simp_all
  have "dfs_post roles (insert roleName (set rest)) ?V (set (visitedRoles ?st'))"
    using p1 p2 by (rule dfs_post_Cons)
  moreover have "gained roles ?V (set (visitedRoles ?st')) =
      gained roles ?V (set (visitedRoles ?st1)) \<union> gained roles (set (visitedRoles ?st1)) (set (visitedRoles ?st'))"
    using dfs_post_sub [OF p1] dfs_post_sub [OF p2] by (rule gained_trans)
  ultimately show ?case
    using g1 g2 by auto
qed

lemma new_Set_None [simp]: "new_Set None = []"
  by (simp add: new_Set_def)

lemma set_new_Set_Some [simp]: "set (new_Set (Some xs)) = set xs"
  by (simp add: new_Set_def)

lemma set_new_Set: "set (new_Set (subject_permissions subject)) = direct_permissions subject"
  by (simp add: direct_permissions_def split: option.splits)

lemma getPermissions_effective:
  "set (getPermissions e subject) = effectivePermissions (engine_roles e) subject"
proof -
  let ?st0 = "\<lparr>prms = new_Set (subject_permissions subject), visitedRoles = new_Set None\<rparr>"
  let ?st' = "visited_forEach (engine_roles e) (subject_roles subject) ?st0"
  from visited_inv(2) [of "engine_roles e" "subject_roles subject" ?st0]
  have post: "dfs_post (engine_roles e) (set (subject_roles subject)) {} (set (visitedRoles ?st'))"
    and g: "set (prms ?st') = direct_permissions subject
              \<union> gained (engine_roles e) {} (set (visitedRoles ?st'))"
    by (simp_all add: set_new_Set)
  have "set (visitedRoles ?st') = reachable (engine_roles e) (set (subject_roles subject))"
    using post by (rule dfs_post_top)
  then show ?thesis
    using g by (simp add: getPermissions_def effectivePermissions_def gained_def)
qed


lemma gained_roles_same [simp]: "gained_roles roles V V = {}"
  by (simp add: gained_roles_def)

lemma gained_roles_node:
  assumes "n \<notin> V" "insert n V \<subseteq> V'"
  shows "gained_roles roles V V' = {r. map_of roles n = Some r} \<union> gained_roles roles (insert n V) V'"
proof -
  have "V' - V = insert n (V' - insert n V)"
    using assms by blast
  then show ?thesis
    by (auto simp add: gained_roles_def)
qed

lemma gained_roles_trans:
  assumes "V \<subseteq> V1" "V1 \<subseteq> V'"
  shows "gained_roles roles V V' = gained_roles roles V V1 \<union> gained_roles roles V1 V'"
proof -
  have "V' - V = (V1 - V) \<union> (V' - V1)"
    using assms by blast
  then show ?thesis
    by (auto simp add: gained_roles_def)
qed

lemma gained_roles_perms:
  "(\<Union>r \<in> gained_roles roles V V'. set (role_permissions r)) = gained roles V V'"
proof -
  have "set (role_permissions r) = perms_of roles m" if "map_of roles m = Some r" for m r
    using that by (simp add: perms_of_def)
  moreover have "perms_of roles m = {}" if "map_of roles m = None" for m
    using that by (simp add: perms_of_def)
  ultimately show ?thesis
    unfolding gained_roles_def gained_def
    by (intro set_eqI iffI; clarsimp; metis empty_iff not_Some_eq DiffI)
qed

lemma visit_inv:
  "dfs_post roles {name} (set (rr_visited st)) (set (rr_visited (visit roles name st)))
   \<and> set (rr_roles (visit roles name st)) =
       set (rr_roles st) \<union> gained_roles roles (set (rr_visited st)) (set (rr_visited (visit roles name st)))"
  "dfs_post roles (set names) (set (rr_visited st)) (set (rr_visited (visit_forEach roles names st)))
   \<and> set (rr_roles (visit_forEach roles names st)) =
       set (rr_roles st) \<union> gained_roles roles (set (rr_visited st)) (set (rr_visited (visit_forEach roles names st)))"
proof (induction roles name st and roles names st rule: visit_visit_forEach.induct)
  case (1 roles name st)
  let ?V = "set (rr_visited st)"
  show ?case
  proof (cases "name \<in> ?V")
    case True
    then show ?thesis
      by (simp add: visit.simps [of roles name st] dfs_post_skip)
  next
    case False
    show ?thesis
    proof (cases "map_of roles name")
      case None
      then have "parents_of roles name = {}"
        by (simp_all add: parents_of_def)
      then show ?thesis
        using False None dfs_post_leaf [of roles name ?V]
          gained_roles_node [of name ?V "insert name ?V" roles]
        by (simp add: visit.simps [of roles name st])
    next
      case (Some role)
      note registered = this
      show ?thesis
      proof (cases "role_inherits role")
        case None
        then have "parents_of roles name = {}"
          using registered by (simp add: parents_of_def)
        then show ?thesis
          using False None registered dfs_post_leaf [of roles name ?V]
            gained_roles_node [of name ?V "insert name ?V" roles]
          by (simp add: visit.simps [of roles name st])
      next
        case (Some parents)
        let ?st1 = "st\<lparr>rr_visited := set_add name (rr_visited st)\<rparr>"
        let ?st2 = "visit_forEach roles parents ?st1"
        let ?st' = "?st2\<lparr>rr_roles := rr_roles ?st2 @ [role]\<rparr>"
        have res: "visit roles name st = ?st'"
          using False registered Some by (simp add: visit.simps [of roles name st] Let_def)
        have par: "parents_of roles name = set parents"
          using registered Some by (simp add: parents_of_def)
        from "1.IH" [OF False registered Some]
        have post: "dfs_post roles (set parents) (insert name ?V) (set (rr_visited ?st2))"
          and rs: "set (rr_roles ?st2) = set (rr_roles st)
                     \<union> gained_roles roles (insert name ?V) (set (rr_visited ?st2))"
          by simp_all
        have "dfs_post roles {name} ?V (set (rr_visited ?st2))"
          using False post par by (intro dfs_post_node) simp_all
        moreover have "gained_roles roles ?V (set (rr_visited ?st2)) =
            {r. map_of roles name = Some r} \<union> gained_roles roles (insert name ?V) (set (rr_visited ?st2))"
          using False dfs_post_sub [OF post] by (rule gained_roles_node)
        ultimately show ?thesis
          unfolding res using rs registered by auto
      qed
    qed
  qed
next
  case (2 roles st)
  show ?case by (simp add: dfs_post_Nil)
next
  case (3 roles name rest st)
  let ?V = "set (rr_visited st)"
  let ?st1 = "visit roles name st"
  let ?st' = "visit_forEach roles rest ?st1"
  from "3.IH"(1) have p1: "dfs_post roles {name} ?V (set (rr_visited ?st1))"
    and g1: "set (rr_roles ?st1) = set (rr_roles st) \<union> gained_roles roles ?V (set (rr_visited ?st1))"
    by simp_all
  from "3.IH"(2) have p2: "dfs_post roles (set rest) (set (rr_visited ?st1)) (set (rr_visited ?st'))"
    and g2: "set (rr_roles ?st') = set (rr_roles ?st1) \<union> gained_roles roles (set (rr_visited ?st1)) (set (rr_visited ?st'))"
    by simp_all
  have "dfs_post roles (insert name (set rest)) ?V (set (rr_visited ?st'))"
    using p1 p2 by (rule dfs_post_Cons)
  moreover have "gained_roles roles ?V (set (rr_visited ?st')) =
      gained_roles roles ?V (set (rr_visited ?st1)) \<union> gained_roles roles (set (rr_visited ?st1)) (set (rr_visited ?st'))"
    using dfs_post_sub [OF p1] dfs_post_sub [OF p2] by (rule gained_roles_trans)
  ultimately show ?case
    using g1 g2 by auto
qed

lemma set_fold_role_permissions:
  "set (fold (\<lambda>role acc. fold set_add (role_permissions role) acc) rs acc) =
     set acc \<union> (\<Union>r \<in> set rs. set (role_permissions r))"
  by (induction rs arbitrary: acc) auto

lemma set_resolveRoles:
  "set (resolveRoles roles roleNames) = gained_roles roles {} (reachable roles (set roleNames))"
proof -
  let ?st0 = "\<lparr>rr_visited = new_Set None, rr_roles = []\<rparr>"
  let ?st' = "visit_forEach roles roleNames ?st0"
  from visit_inv(2) [of roles roleNames ?st0]
  have post: "dfs_post roles (set roleNames) {} (set (rr_visited ?st'))"
    and g: "set (rr_roles ?st') = gained_roles roles {} (set (rr_visited ?st'))"
    by simp_all
  have "set (rr_visited ?st') = reachable roles (set roleNames)"
    using post by (rule dfs_post_top)
  then show ?thesis
    using g by (simp add: resolveRoles_def)
qed

lemma resolvePermissions_effective:
  "set (resolvePermissions e subject) = effectivePermissions (engine_roles e) subject"
proof -
  let ?R = "reachable (engine_roles e) (set (subject_roles subject))"
  have "set (resolvePermissions e subject) =
      direct_permissions subject \<union> gained (engine_roles e) {} ?R"
    by (auto simp add: resolvePermissions_def Let_def set_fold_role_permissions set_resolveRoles
        gained_roles_perms set_new_Set direct_permissions_def split: option.splits)
  then show ?thesis
    by (simp add: effectivePermissions_def gained_def)
qed

lemma matched_iff:
  "list_ex (\<lambda>perm. Permission_match perm permission) (getPermissions e subject) \<longleftrightarrow>
     (\<exists>pat \<in> effectivePermissions (engine_roles e) subject. Permission_match pat permission)"
  by (simp add: list_ex_iff getPermissions_effective)

lemma visited_marks: "roleName \<in> set (visitedRoles (visited roles roleName st))"
  using visited_inv(1) [of roles roleName st] by (simp add: dfs_post_def)

lemma visited_again: "roleName \<in> set (visitedRoles st) \<Longrightarrow> visited roles roleName st = st"
  by (simp add: visited.simps [of roles roleName st])

lemma distinct_set_add: "distinct xs \<Longrightarrow> distinct (set_add x xs)"
  by (simp add: set_add_def)

lemma distinct_fold_set_add: "distinct acc \<Longrightarrow> distinct (fold set_add xs acc)"
  by (induction xs arbitrary: acc) (simp_all add: distinct_set_add)

lemma distinct_new_Set: "distinct (new_Set iterable)"
  by (simp add: new_Set_def distinct_fold_set_add split: option.splits)

lemma visited_distinct:
  "distinct (prms st) \<Longrightarrow> distinct (prms (visited roles roleName st))"
  "distinct (prms st) \<Longrightarrow> distinct (prms (visited_forEach roles names st))"
proof (induction roles roleName st and roles names st rule: visited_visited_forEach.induct)
  case (1 roles roleName st)
  show ?case
  proof (cases "roleName \<in> set (visitedRoles st)")
    case True
    then show ?thesis
      using "1.prems" by (simp add: visited.simps [of roles roleName st])
  next
    case False
    show ?thesis
    proof (cases "map_of roles roleName")
      case None
      then show ?thesis
        using "1.prems" False by (simp add: visited.simps [of roles roleName st])
    next
      case (Some role)
      note registered = this
      show ?thesis
      proof (cases "role_inherits role")
        case None
        then show ?thesis
          using "1.prems" False registered
          by (simp add: visited.simps [of roles roleName st] distinct_fold_set_add)
      next
        case (Some parents)
        then show ?thesis
          using "1.prems" False registered "1.IH" [OF False registered Some]
          by (simp add: visited.simps [of roles roleName st] distinct_fold_set_add)
      qed
    qed
  qed
next
  case (2 roles st)
  then show ?case by simp
next
  case (3 roles roleName rest st)
  then show ?case by simp
qed

lemma reachable_self: "n \<in> R \<Longrightarrow> n \<in> reachable roles R"
  by (auto simp: reachable_def)

lemma reachable_step:
  "n \<in> reachable roles R \<Longrightarrow> m \<in> parents_of roles n \<Longrightarrow> m \<in> reachable roles R"
  by (auto simp: reachable_def inherits_rel_def intro: rtrancl_into_rtrancl)

lemma map_of_with_inherits:
  "map_of (with_inherits f roles) n =
     map_option (\<lambda>r. r\<lparr>role_inherits := map_option f (role_inherits r)\<rparr>) (map_of roles n)"
  by (simp add: with_inherits_def map_of_map)

lemma perms_of_with_inherits: "perms_of (with_inherits f roles) n = perms_of roles n"
  unfolding perms_of_def map_of_with_inherits
  by (cases "map_of roles n") simp_all

lemma parents_of_with_inherits:
  "parents_of (with_inherits f roles) n =
     (case map_of roles n of
        None \<Rightarrow> {}
      | Some r \<Rightarrow> (case role_inherits r of None \<Rightarrow> {} | Some ps \<Rightarrow> set (f ps)))"
  unfolding parents_of_def map_of_with_inherits
  by (cases "map_of roles n") (auto split: option.splits)

lemma parents_of_same_set:
  "\<forall>xs. set (f xs) = set xs \<Longrightarrow> parents_of (with_inherits f roles) n = parents_of roles n"
  unfolding parents_of_with_inherits
  by (simp add: parents_of_def split: option.splits)

lemma reachable_same_set:
  assumes "\<forall>xs. set (f xs) = set xs"
  shows "reachable (with_inherits f roles) R = reachable roles R"
proof -
  have "inherits_rel (with_inherits f roles) = inherits_rel roles"
    using assms by (simp add: inherits_rel_def parents_of_same_set)
  then show ?thesis
    by (simp add: reachable_def)
qed

lemma parents_of_known:
  "parents_of (with_inherits (known_roles roles) roles) n =
     {m \<in> parents_of roles n. map_of roles m \<noteq> None}"
  unfolding parents_of_with_inherits
  by (auto simp add: parents_of_def known_roles_def split: option.splits)

lemma parents_registered: "m \<in> parents_of roles n \<Longrightarrow> map_of roles n \<noteq> None"
  by (cases "map_of roles n") (simp_all add: parents_of_def)

lemma path_to_known:
  assumes "(r, n) \<in> (inherits_rel roles)\<^sup>*" "map_of roles n \<noteq> None"
  shows "(r, n) \<in> (inherits_rel (with_inherits (known_roles roles) roles))\<^sup>* \<and> map_of roles r \<noteq> None"
  using assms
proof (induction rule: rtrancl_induct)
  case base
  then show ?case by simp
next
  case (step y z)
  from step.hyps(2) have yz: "z \<in> parents_of roles y"
    by (simp add: inherits_rel_def)
  then have y: "map_of roles y \<noteq> None"
    by (rule parents_registered)
  have "(y, z) \<in> inherits_rel (with_inherits (known_roles roles) roles)"
    using yz step.prems by (simp add: inherits_rel_def parents_of_known)
  with step.IH [OF y] show ?case
    by (auto intro: rtrancl_into_rtrancl)
qed

lemma inherits_rel_known_sub:
  "inherits_rel (with_inherits (known_roles roles) roles) \<subseteq> inherits_rel roles"
  by (auto simp add: inherits_rel_def parents_of_known)

lemma gained_known:
  "(\<Union>n \<in> reachable (with_inherits (known_roles roles) roles) (set (known_roles roles names)).
      perms_of roles n)
   = (\<Union>n \<in> reachable roles (set names). perms_of roles n)"
proof (intro set_eqI iffI)
  fix x
  assume "x \<in> (\<Union>n \<in> reachable (with_inherits (known_roles roles) roles)
                   (set (known_roles roles names)). perms_of roles n)"
  then obtain r n where r: "r \<in> set (known_roles roles names)"
    and path: "(r, n) \<in> (inherits_rel (with_inherits (known_roles roles) roles))\<^sup>*"
    and x: "x \<in> perms_of roles n"
    by (auto simp: reachable_def)
  from path have "(r, n) \<in> (inherits_rel roles)\<^sup>*"
    using rtrancl_mono [OF inherits_rel_known_sub] by blast
  moreover have "r \<in> set names"
    using r by (simp add: known_roles_def)
  ultimately show "x \<in> (\<Union>n \<in> reachable roles (set names). perms_of roles n)"
    using x by (auto simp: reachable_def)
next
  fix x
  assume "x \<in> (\<Union>n \<in> reachable roles (set names). perms_of roles n)"
  then obtain r n where r: "r \<in> set names" and path: "(r, n) \<in> (inherits_rel roles)\<^sup>*"
    and x: "x \<in> perms_of roles n"
    by (auto simp: reachable_def)
  from x have "map_of roles n \<noteq> None"
    by (cases "map_of roles n") (simp_all add: perms_of_def)
  from path_to_known [OF path this] r
  have "(r, n) \<in> (inherits_rel (with_inherits (known_roles roles) roles))\<^sup>*"
    and "r \<in> set (known_roles roles names)"
    by (simp_all add: known_roles_def)
  then show "x \<in> (\<Union>n \<in> reachable (with_inherits (known_roles roles) roles)
                   (set (known_roles roles names)). perms_of roles n)"
    using x by (auto simp: reachable_def)
qed

lemma visited_unknown:
  assumes "map_of roles roleName = None"
  shows "prms (visited roles roleName st) = prms st"
    and "set (visitedRoles (visited roles roleName st)) = insert roleName (set (visitedRoles st))"
  using assms by (auto simp add: visited.simps [of roles roleName st])

lemma visited_forEach_unknown:
  "\<forall>n \<in> set names. map_of roles n = None \<Longrightarrow> prms (visited_forEach roles names st) = prms st"
proof (induction names arbitrary: st)
  case Nil
  show ?case by simp
next
  case (Cons n names)
  then show ?case
    by (simp add: visited_unknown(1))
qed

lemma getPermissions_policies [simp]:
  "getPermissions (e\<lparr>engine_policies := ps\<rparr>) subject = getPermissions e subject"
  by (simp add: getPermissions_def)

lemma can_cong_permissions:
  assumes "set (getPermissions e' subject) = set (getPermissions e subject)"
    and "engine_policies e' = engine_policies e"
  shows "can e' subject permission ctx w = can e subject permission ctx w"
proof -
  have "list_ex (\<lambda>perm. Permission_match perm permission) (getPermissions e' subject)
      = list_ex (\<lambda>perm. Permission_match perm permission) (getPermissions e subject)"
    using assms(1) by (simp add: list_ex_iff)
  then show ?thesis
    using assms(2) by (simp add: can_def)
qed

lemma effective_same_lists:
  assumes "\<forall>xs. set (f xs) = set xs" "set rs = set (subject_roles subject)"
  shows "effectivePermissions (with_inherits f roles) (subject\<lparr>subject_roles := rs\<rparr>)
       = effectivePermissions roles subject"
  using assms
  by (simp add: effectivePermissions_def direct_permissions_def reachable_same_set
      perms_of_with_inherits)

section \<open>Facts about the registries of the tests\<close>

lemmas blog_defs = blog_engine_def an_editor_def viewer_def editor_def addRole_def addPolicy_def
  new_RBACEngine_def ownership_policy_def counting_policy_def failing_policy_def

lemma getPermissions_an_editor:
  "getPermissions blog_engine an_editor = [''post:write'', ''post:edit'', ''post:read'', ''comment:read'']"
  by (simp add: getPermissions_def blog_defs visited.simps new_Set_def set_add_def)

lemma effective_an_editor:
  "effectivePermissions (engine_roles blog_engine) an_editor =
     {''post:write'', ''post:edit'', ''post:read'', ''comment:read''}"
  using getPermissions_effective [of blog_engine an_editor]
  by (simp add: getPermissions_an_editor)

lemma match_simps:
  "Permission_match ''post:write'' ''post:delete'' = False"
  "Permission_match ''post:edit'' ''post:delete'' = False"
  "Permission_match ''post:read'' ''post:delete'' = False"
  "Permission_match ''comment:read'' ''post:delete'' = False"
  by (simp_all add: Permission_match_def match_loop.simps at_index_def falsy_part_def or_array_def truthy_array_def)

lemma policies_blog:
  "map_of (engine_policies blog_engine) ''post:read'' = None"
  "map_of (engine_policies blog_engine) ''post:edit'' = Some ownership_policy"
  "map_of (engine_policies blog_engine) ''post:delete'' = Some counting_policy"
  "map_of (engine_policies blog_engine) ''post:write'' = Some failing_policy"
  by (simp_all add: blog_engine_def addRole_def addPolicy_def new_RBACEngine_def)

lemmas circular_defs = circular_engine_def holder_of_roleA_def roleA_def roleB_def addRole_def
  new_RBACEngine_def

lemma getPermissions_circular:
  "getPermissions circular_engine holder_of_roleA = [''perm:a'', ''perm:b'']"
  by (simp add: getPermissions_def circular_defs visited.simps new_Set_def set_add_def)

lemma getPermissions_a_heap:
  "getPermissions (promoting_engine a_heap) (heap_subject a_heap) = [''post:edit'']"
  by (simp add: getPermissions_def promoting_engine_def a_heap_def a_user_def user_role_def
      visited.simps new_Set_def set_add_def)

section \<open>The claims about the matcher\<close>

text \<open>
  C2 (the code and the claim disagree). The claim: \<^verbatim>\<open>match(P, Q)\<close> is true iff every
  literal segment of \<open>P\<close> equals the corresponding segment of \<open>Q\<close>, every \<^verbatim>\<open>*\<close> consumes
  exactly one segment, a \<^verbatim>\<open>**\<close> ends the comparison, and without \<^verbatim>\<open>**\<close> the segment
  counts agree; an empty trailing segment is compared like any other literal. The loop of
  the code breaks this in two places. Its guard \<^verbatim>\<open>!permissionPart\<close>, meant for a permission
  that has run out of segments, also fires on an empty segment: \<^verbatim>\<open>*:\<close> does not match
  \<^verbatim>\<open>user:\<close>, and \<^verbatim>\<open>user:\<close> matches itself only through the comparison of the whole
  strings, the loop alone rejecting it. And a \<^verbatim>\<open>*\<close> is passed without a look at the
  permission, so that \<^verbatim>\<open>a:*:**\<close> matches \<^verbatim>\<open>a\<close>, where there is no segment for \<^verbatim>\<open>*\<close> to
  consume, while \<^verbatim>\<open>a:*\<close> does not.
\<close>

theorem matcher_breaks_segment_rule:
  "\<not> Permission_match ''*:'' ''user:'' \<and> spec_match ''*:'' ''user:''
   \<and> Permission_match ''user:'' ''user:''
   \<and> \<not> match_loop (split CHR '':'' ''user:'') (split CHR '':'' ''user:'') 0
   \<and> Permission_match ''a:*:**'' ''a'' \<and> \<not> spec_match ''a:*:**'' ''a''
   \<and> \<not> Permission_match ''a:*'' ''a''"
  by (simp add: Permission_match_def spec_match_def first_dstar_def match_loop.simps
      at_index_def falsy_part_def)

text \<open>
  C4 (the code and the claim disagree). The claim: pattern and permission are split on the
  delimiter the pattern uses, \<^verbatim>\<open>:\<close> or \<^verbatim>\<open>.\<close>, so \<^verbatim>\<open>user.*\<close> matches \<^verbatim>\<open>user.X\<close> for every
  segment \<open>X\<close> as \<^verbatim>\<open>user:*\<close> matches \<^verbatim>\<open>user:X\<close>. In the code the split on the dot is the
  right operand of \<^verbatim>\<open>||\<close> after an array, which is never evaluated: \<^verbatim>\<open>user.*\<close> stays one
  literal segment and matches \<^verbatim>\<open>user.X\<close> for no \<open>X\<close> but \<^verbatim>\<open>*\<close> itself, where the two
  strings are equal; under the colon, \<^verbatim>\<open>user:*\<close> matches \<^verbatim>\<open>user:X\<close> for every \<open>X\<close> without
  a colon.
\<close>

theorem dot_pattern_not_split:
  "(Permission_match ''user.*'' (''user.'' @ X) \<longleftrightarrow> X = ''*'')
   \<and> (Permission_match ''user:*'' (''user:'' @ X) \<longleftrightarrow> CHR '':'' \<notin> set X)"
proof
  show "Permission_match ''user.*'' (''user.'' @ X) \<longleftrightarrow> X = ''*''"
  proof (cases "X = ''*''")
    case True
    then show ?thesis
      by (simp add: Permission_match_def)
  next
    case False
    obtain w ws where sp: "split CHR '':'' X = w # ws"
      by (cases "split CHR '':'' X") (simp_all add: split_not_Nil)
    have "\<not> (w = ''*'' \<and> ws = [])"
      using sp False split_single [of "CHR '':''" X "''*''"] by auto
    then show ?thesis
      using False sp
      by (auto simp add: Permission_match_def match_loop.simps at_index_def falsy_part_def)
  qed
next
  show "Permission_match ''user:*'' (''user:'' @ X) \<longleftrightarrow> CHR '':'' \<notin> set X"
  proof (cases "X = ''*''")
    case True
    then show ?thesis
      by (simp add: Permission_match_def)
  next
    case False
    have "Permission_match ''user:*'' (''user:'' @ X) \<longleftrightarrow> length (split CHR '':'' X) = 1"
      using False
      by (simp add: Permission_match_def match_loop.simps at_index_def falsy_part_def)
    then show ?thesis
      using length_split_one [of "CHR '':''" X] by simp
  qed
qed

theorem dot_pattern_not_split_at_read:
  "\<not> Permission_match ''user.*'' ''user.read'' \<and> Permission_match ''user:*'' ''user:read''"
  using dot_pattern_not_split [of "''read''"] by simp

text \<open>
  C5 (corrected). The claim: a \<^verbatim>\<open>*\<close> at index \<open>i\<close> accepts a non-empty permission segment
  and only a non-empty one. In the code the test for \<^verbatim>\<open>*\<close> comes before the test of the
  permission segment, so a \<^verbatim>\<open>*\<close> at index \<open>i\<close> accepts whatever the permission has at index
  \<open>i\<close>: replacing that segment by any other string, the empty one included, does not
  change the outcome (for strings that are not equal to the pattern as a whole), and the
  loop goes on at index \<open>i + 1\<close>.
\<close>

theorem star_ignores_segment:
  assumes "i < length (split CHR '':'' P)" "split CHR '':'' P ! i = ''*''"
    and "split CHR '':'' Q' = (split CHR '':'' Q)[i := x]"
    and "P \<noteq> Q" "P \<noteq> Q'"
  shows "Permission_match P Q' = Permission_match P Q
         \<and> match_loop (split CHR '':'' P) (split CHR '':'' Q) i
             = match_loop (split CHR '':'' P) (split CHR '':'' Q) (i + 1)"
proof -
  have "match_loop (split CHR '':'' P) (split CHR '':'' Q') 0
      = match_loop (split CHR '':'' P) (split CHR '':'' Q) 0"
    using assms(2,3) by (simp add: match_loop_from_start seg_ok_update)
  moreover have "match_loop (split CHR '':'' P) (split CHR '':'' Q) i
      = match_loop (split CHR '':'' P) (split CHR '':'' Q) (i + 1)"
    using assms(1,2) by (simp add: match_loop.simps [of _ _ i])
  ultimately show ?thesis
    using assms(4,5) by (simp add: Permission_match_def)
qed

theorem star_ignores_segment_witness:
  "Permission_match ''user:*'' ''user:'' = Permission_match ''user:*'' ''user:read''
   \<and> match_loop [''user'', ''*''] [''user'', ''read''] 1
       = match_loop [''user'', ''*''] [''user'', ''read''] 2"
  using star_ignores_segment [of 1 "''user:*''" "''user:''" "''user:read''" "[]"]
  by (simp add: numeral_2_eq_2)

text \<open>
  The claim as stated fails at the pattern \<^verbatim>\<open>user:*\<close> and the permission \<^verbatim>\<open>user:\<close>: the
  pattern has \<^verbatim>\<open>*\<close> at index 1, the permission has the empty segment there, the two
  strings differ, and the match succeeds.
\<close>

theorem star_accepts_empty_segment:
  "Permission_match ''user:*'' ''user:''
   \<and> split CHR '':'' ''user:*'' ! 1 = ''*''
   \<and> split CHR '':'' ''user:'' ! 1 = []
   \<and> ''user:*'' \<noteq> ''user:''"
  by (simp add: Permission_match_def match_loop.simps at_index_def falsy_part_def)

section \<open>The claims about the engine\<close>

text \<open>
  C1 (confirmed). \<^verbatim>\<open>can(subject, permission, context)\<close> decides in three stages. If no
  pattern of the effective permission set (the permissions of the roles reachable through
  \<^verbatim>\<open>inherits\<close>, together with the subject's own) matches the requested permission, the
  result is the denial with reason "Permission not found in subject roles/permissions";
  the world is returned as it was and the result is the same whatever policies are
  registered, so no policy is invoked. If a pattern matches and no policy is registered
  under the requested string, the result is allowed, with no reason. If a policy is
  registered and returns a boolean, \<^verbatim>\<open>allowed\<close> is that boolean and the reason is
  "Access denied by policy" exactly when it is false.
\<close>

theorem can_three_stages:
  "((\<forall>pat \<in> effectivePermissions (engine_roles e) subject. \<not> Permission_match pat permission) \<longrightarrow>
      can e subject permission ctx w =
        (Inr \<lparr>auth_allowed = False,
              auth_reason = Some ''Permission not found in subject roles/permissions'',
              auth_permission = permission\<rparr>, w)
      \<and> can (e\<lparr>engine_policies := registered\<rparr>) subject permission ctx w =
          can e subject permission ctx w)
   \<and> ((\<exists>pat \<in> effectivePermissions (engine_roles e) subject. Permission_match pat permission)
        \<and> map_of (engine_policies e) permission = None \<longrightarrow>
      can e subject permission ctx w =
        (Inr \<lparr>auth_allowed = True, auth_reason = None, auth_permission = permission\<rparr>, w))
   \<and> ((\<exists>pat \<in> effectivePermissions (engine_roles e) subject. Permission_match pat permission)
        \<and> map_of (engine_policies e) permission = Some policy
        \<and> policy subject ctx w = (Inr result, w') \<longrightarrow>
      can e subject permission ctx w =
        (Inr \<lparr>auth_allowed = result,
              auth_reason = (if result then None else Some ''Access denied by policy''),
              auth_permission = permission\<rparr>, w'))"
proof (intro conjI impI)
  assume "\<forall>pat \<in> effectivePermissions (engine_roles e) subject. \<not> Permission_match pat permission"
  then have no: "\<not> list_ex (\<lambda>perm. Permission_match perm permission) (getPermissions e subject)"
    by (simp add: matched_iff)
  then show "can e subject permission ctx w =
        (Inr \<lparr>auth_allowed = False,
              auth_reason = Some ''Permission not found in subject roles/permissions'',
              auth_permission = permission\<rparr>, w)"
    by (simp add: can_def)
  have "getPermissions (e\<lparr>engine_policies := registered\<rparr>) subject = getPermissions e subject"
    by (simp add: getPermissions_def)
  then show "can (e\<lparr>engine_policies := registered\<rparr>) subject permission ctx w =
          can e subject permission ctx w"
    using no by (simp add: can_def)
next
  assume "(\<exists>pat \<in> effectivePermissions (engine_roles e) subject. Permission_match pat permission)
        \<and> map_of (engine_policies e) permission = None"
  then show "can e subject permission ctx w =
        (Inr \<lparr>auth_allowed = True, auth_reason = None, auth_permission = permission\<rparr>, w)"
    by (simp add: can_def matched_iff)
next
  assume "(\<exists>pat \<in> effectivePermissions (engine_roles e) subject. Permission_match pat permission)
        \<and> map_of (engine_policies e) permission = Some policy
        \<and> policy subject ctx w = (Inr result, w')"
  then show "can e subject permission ctx w =
        (Inr \<lparr>auth_allowed = result,
              auth_reason = (if result then None else Some ''Access denied by policy''),
              auth_permission = permission\<rparr>, w')"
    by (simp add: can_def matched_iff)
qed

theorem can_three_stages_witness:
  "can blog_engine an_editor ''post:delete'' ''user-1'' 0 =
     (Inr \<lparr>auth_allowed = False,
           auth_reason = Some ''Permission not found in subject roles/permissions'',
           auth_permission = ''post:delete''\<rparr>, 0)
   \<and> can blog_engine an_editor ''post:read'' ''user-1'' 0 =
     (Inr \<lparr>auth_allowed = True, auth_reason = None, auth_permission = ''post:read''\<rparr>, 0)
   \<and> can blog_engine an_editor ''post:edit'' ''user-1'' 0 =
     (Inr \<lparr>auth_allowed = True, auth_reason = None, auth_permission = ''post:edit''\<rparr>, 0)
   \<and> can blog_engine an_editor ''post:edit'' ''user-2'' 0 =
     (Inr \<lparr>auth_allowed = False, auth_reason = Some ''Access denied by policy'',
           auth_permission = ''post:edit''\<rparr>, 0)"
proof -
  let ?E = "effectivePermissions (engine_roles blog_engine) an_editor"
  have none: "\<forall>pat \<in> ?E. \<not> Permission_match pat ''post:delete''"
    by (simp add: effective_an_editor match_simps)
  have rd: "\<exists>pat \<in> ?E. Permission_match pat ''post:read''"
    and ed: "\<exists>pat \<in> ?E. Permission_match pat ''post:edit''"
    by (simp_all add: effective_an_editor Permission_match_def)
  have yes: "ownership_policy an_editor ''user-1'' 0 = (Inr True, 0)"
    and no: "ownership_policy an_editor ''user-2'' 0 = (Inr False, 0)"
    by (simp_all add: ownership_policy_def an_editor_def)
  show ?thesis
    using can_three_stages [of blog_engine an_editor "''post:delete''" "''user-1''" 0 "[]"] none
      can_three_stages [of blog_engine an_editor "''post:read''" "''user-1''" 0] rd
      can_three_stages [of blog_engine an_editor "''post:edit''" "''user-1''" 0 _ ownership_policy True 0] ed yes
      can_three_stages [of blog_engine an_editor "''post:edit''" "''user-2''" 0 _ ownership_policy False 0] no
    by (simp add: policies_blog)
qed

text \<open>
  C3 (confirmed). Role resolution terminates on every registry and list of names, cycles
  and diamonds included: every argument lies in the domain of the recursion of
  \<open>visited\<close> and \<open>visited_forEach\<close>. A role contributes once: visiting a name a second
  time changes nothing. The result is exactly the effective permission set, without
  duplicates. For a cycle, where \<open>a\<close> inherits \<open>b\<close> and \<open>b\<close> inherits \<open>a\<close>, resolving from
  \<open>a\<close> gives a set that contains the permissions of both roles.
\<close>

theorem resolution_terminates_cycle_safe:
  "visited_visited_forEach_dom (Inl (roles, roleName, st))
   \<and> visited_visited_forEach_dom (Inr (roles, names, st))
   \<and> visited roles roleName (visited roles roleName st) = visited roles roleName st
   \<and> set (getPermissions e subject) = effectivePermissions (engine_roles e) subject
   \<and> distinct (getPermissions e subject)
   \<and> (a \<in> set (subject_roles subject)
        \<and> map_of (engine_roles e) a = Some ra \<and> role_inherits ra = Some as \<and> b \<in> set as
        \<and> map_of (engine_roles e) b = Some rb \<and> role_inherits rb = Some bs \<and> a \<in> set bs \<longrightarrow>
      set (role_permissions ra) \<union> set (role_permissions rb) \<subseteq> set (getPermissions e subject))"
proof (intro conjI impI)
  show "visited_visited_forEach_dom (Inl (roles, roleName, st))"
    "visited_visited_forEach_dom (Inr (roles, names, st))"
    using visited_total by simp_all
  show "visited roles roleName (visited roles roleName st) = visited roles roleName st"
    by (rule visited_again) (rule visited_marks)
  show "set (getPermissions e subject) = effectivePermissions (engine_roles e) subject"
    by (rule getPermissions_effective)
  show "distinct (getPermissions e subject)"
    by (simp add: getPermissions_def visited_distinct(2) distinct_new_Set)
next
  assume cyc: "a \<in> set (subject_roles subject)
        \<and> map_of (engine_roles e) a = Some ra \<and> role_inherits ra = Some as \<and> b \<in> set as
        \<and> map_of (engine_roles e) b = Some rb \<and> role_inherits rb = Some bs \<and> a \<in> set bs"
  let ?R = "reachable (engine_roles e) (set (subject_roles subject))"
  have a: "a \<in> ?R"
    using cyc by (simp add: reachable_self)
  have "b \<in> parents_of (engine_roles e) a"
    using cyc by (simp add: parents_of_def)
  with a have b: "b \<in> ?R"
    by (rule reachable_step)
  have "perms_of (engine_roles e) a = set (role_permissions ra)"
    "perms_of (engine_roles e) b = set (role_permissions rb)"
    using cyc by (simp_all add: perms_of_def)
  then show "set (role_permissions ra) \<union> set (role_permissions rb) \<subseteq> set (getPermissions e subject)"
    using a b unfolding getPermissions_effective effectivePermissions_def by blast
qed

theorem resolution_terminates_cycle_safe_witness:
  "{''perm:a'', ''perm:b''} \<subseteq> set (getPermissions circular_engine holder_of_roleA)"
proof -
  have "map_of (engine_roles circular_engine) ''roleA'' = Some roleA"
    "map_of (engine_roles circular_engine) ''roleB'' = Some roleB"
    by (simp_all add: circular_engine_def addRole_def new_RBACEngine_def roleA_def roleB_def)
  moreover have "role_inherits roleA = Some [''roleB'']" "role_inherits roleB = Some [''roleA'']"
    "role_permissions roleA = [''perm:a'']" "role_permissions roleB = [''perm:b'']"
    by (simp_all add: roleA_def roleB_def)
  moreover have "''roleA'' \<in> set (subject_roles holder_of_roleA)"
    by (simp add: holder_of_roleA_def)
  ultimately show ?thesis
    using resolution_terminates_cycle_safe [of _ _ _ _ circular_engine holder_of_roleA
        "''roleA''" roleA "[''roleB'']" "''roleB''" roleB "[''roleA'']",
        THEN conjunct2, THEN conjunct2, THEN conjunct2, THEN conjunct2, THEN conjunct2]
    by simp
qed

text \<open>
  C7 (confirmed). If the permission is matched and the registered policy throws (or its
  promise rejects), \<^verbatim>\<open>can\<close> rejects with the same error, and returns no
  \<^verbatim>\<open>Authorization\<close>; and \<^verbatim>\<open>can\<close> rejects only in that case: a rejection of \<^verbatim>\<open>can\<close> is the
  failure of the policy registered for a permission that was matched.
\<close>

theorem policy_failure_propagates:
  "((\<exists>pat \<in> effectivePermissions (engine_roles e) subject. Permission_match pat permission)
      \<and> map_of (engine_policies e) permission = Some policy
      \<and> policy subject ctx w = (Inl err, w') \<longrightarrow>
    can e subject permission ctx w = (Inl err, w'))
   \<and> (fst (can e subject permission ctx w) = Inl err' \<longrightarrow>
        (\<exists>pat \<in> effectivePermissions (engine_roles e) subject. Permission_match pat permission)
        \<and> (\<exists>registered. map_of (engine_policies e) permission = Some registered
              \<and> fst (registered subject ctx w) = Inl err'))"
proof (intro conjI impI)
  assume "(\<exists>pat \<in> effectivePermissions (engine_roles e) subject. Permission_match pat permission)
      \<and> map_of (engine_policies e) permission = Some policy
      \<and> policy subject ctx w = (Inl err, w')"
  then show "can e subject permission ctx w = (Inl err, w')"
    by (simp add: can_def matched_iff)
next
  assume failed: "fst (can e subject permission ctx w) = Inl err'"
  show "\<exists>pat \<in> effectivePermissions (engine_roles e) subject. Permission_match pat permission"
  proof (rule ccontr)
    assume "\<not> ?thesis"
    then have "\<exists>a. fst (can e subject permission ctx w) = Inr a"
      by (simp add: can_def matched_iff)
    with failed show False by simp
  qed
  then have m: "list_ex (\<lambda>perm. Permission_match perm permission) (getPermissions e subject)"
    by (simp add: matched_iff)
  show "\<exists>registered. map_of (engine_policies e) permission = Some registered
              \<and> fst (registered subject ctx w) = Inl err'"
  proof (cases "map_of (engine_policies e) permission")
    case None
    then have "\<exists>a. fst (can e subject permission ctx w) = Inr a"
      using m by (simp add: can_def)
    with failed show ?thesis by simp
  next
    case (Some registered)
    obtain r w'' where r: "registered subject ctx w = (r, w'')"
      by (cases "registered subject ctx w")
    show ?thesis
    proof (cases r)
      case (Inl x)
      then show ?thesis
        using failed m Some r by (simp add: can_def)
    next
      case (Inr result)
      then have "\<exists>a. fst (can e subject permission ctx w) = Inr a"
        using m Some r by (simp add: can_def)
      with failed show ?thesis by simp
    qed
  qed
qed

theorem policy_failure_propagates_witness:
  "can blog_engine an_editor ''post:write'' ''user-1'' 0 = (Inl (Thrown ''lookup failed''), Suc 0)"
proof -
  have "\<exists>pat \<in> effectivePermissions (engine_roles blog_engine) an_editor.
          Permission_match pat ''post:write''"
    by (simp add: effective_an_editor Permission_match_def)
  moreover have "map_of (engine_policies blog_engine) ''post:write'' = Some failing_policy"
    by (rule policies_blog)
  moreover have "failing_policy an_editor ''user-1'' 0 = (Inl (Thrown ''lookup failed''), Suc 0)"
    by (simp add: failing_policy_def)
  ultimately show ?thesis
    using policy_failure_propagates [of blog_engine an_editor "''post:write''" failing_policy
        "''user-1''" 0 "Thrown ''lookup failed''" "Suc 0", THEN conjunct1]
    by blast
qed

text \<open>
  C8 (confirmed). The resolver of the engine, \<^verbatim>\<open>getPermissions\<close>, and the resolver of the
  earlier engine, \<^verbatim>\<open>resolvePermissions\<close> with \<^verbatim>\<open>resolveRoles\<close> and its sort by level,
  compute the same set of permissions for every registry and subject, and the two engines
  return the same result of \<^verbatim>\<open>can\<close>.
\<close>

theorem resolvers_agree:
  "set (resolvePermissions e subject) = set (getPermissions e subject)
   \<and> can_earlier e subject permission ctx w = can e subject permission ctx w"
proof -
  have sets: "set (resolvePermissions e subject) = set (getPermissions e subject)"
    by (simp add: resolvePermissions_effective getPermissions_effective)
  then have "list_ex (\<lambda>perm. Permission_match perm permission) (resolvePermissions e subject)
      = list_ex (\<lambda>perm. Permission_match perm permission) (getPermissions e subject)"
    by (simp add: list_ex_iff)
  then show ?thesis
    using sets by (simp add: can_earlier_def can_def)
qed

theorem resolvers_agree_witness:
  "set (resolvePermissions circular_engine holder_of_roleA) = {''perm:a'', ''perm:b''}
   \<and> can_earlier circular_engine holder_of_roleA ''perm:b'' ''x'' 0
       = can circular_engine holder_of_roleA ''perm:b'' ''x'' 0"
  using resolvers_agree [of circular_engine holder_of_roleA "''perm:b''" "''x''" 0]
  by (simp add: getPermissions_circular)

text \<open>
  C6 (confirmed). A name that is not registered is skipped: visiting it leaves \<^verbatim>\<open>prms\<close> as it
  was and only marks the name. Unknown names do not prevent the rest of the resolution:
  deleting them from \<^verbatim>\<open>subject.roles\<close> and from every \<^verbatim>\<open>inherits\<close> list gives the same
  permission set. When every name in \<^verbatim>\<open>subject.roles\<close> is unknown, the resolved
  permissions are the subject's own and \<^verbatim>\<open>can\<close> answers as an engine with no roles does.
\<close>

theorem unknown_roles_skipped:
  "(map_of roles roleName = None \<longrightarrow>
      prms (visited roles roleName st) = prms st
      \<and> set (visitedRoles (visited roles roleName st)) = insert roleName (set (visitedRoles st)))
   \<and> set (getPermissions (e\<lparr>engine_roles := with_inherits (known_roles (engine_roles e)) (engine_roles e)\<rparr>)
             (subject\<lparr>subject_roles := known_roles (engine_roles e) (subject_roles subject)\<rparr>))
       = set (getPermissions e subject)
   \<and> ((\<forall>n \<in> set (subject_roles subject). map_of (engine_roles e) n = None) \<longrightarrow>
        getPermissions e subject = new_Set (subject_permissions subject)
        \<and> can e subject permission ctx w = can (e\<lparr>engine_roles := []\<rparr>) subject permission ctx w)"
proof (intro conjI impI)
  assume "map_of roles roleName = None"
  then show "prms (visited roles roleName st) = prms st"
    "set (visitedRoles (visited roles roleName st)) = insert roleName (set (visitedRoles st))"
    by (simp_all add: visited_unknown)
next
  show "set (getPermissions (e\<lparr>engine_roles := with_inherits (known_roles (engine_roles e)) (engine_roles e)\<rparr>)
             (subject\<lparr>subject_roles := known_roles (engine_roles e) (subject_roles subject)\<rparr>))
       = set (getPermissions e subject)"
    by (simp add: getPermissions_effective effectivePermissions_def direct_permissions_def
        perms_of_with_inherits gained_known)
next
  assume unknown: "\<forall>n \<in> set (subject_roles subject). map_of (engine_roles e) n = None"
  then show own: "getPermissions e subject = new_Set (subject_permissions subject)"
    by (simp add: getPermissions_def visited_forEach_unknown)
  have "getPermissions (e\<lparr>engine_roles := []\<rparr>) subject = new_Set (subject_permissions subject)"
    by (simp add: getPermissions_def visited_forEach_unknown)
  with own show "can e subject permission ctx w = can (e\<lparr>engine_roles := []\<rparr>) subject permission ctx w"
    by (intro can_cong_permissions [symmetric]) simp_all
qed

theorem unknown_roles_skipped_witness:
  "getPermissions blog_engine a_stranger = []
   \<and> can blog_engine a_stranger ''any:permission'' ''x'' 0 =
       (Inr \<lparr>auth_allowed = False,
             auth_reason = Some ''Permission not found in subject roles/permissions'',
             auth_permission = ''any:permission''\<rparr>, 0)"
proof -
  have "\<forall>n \<in> set (subject_roles a_stranger). map_of (engine_roles blog_engine) n = None"
    by (simp add: a_stranger_def blog_defs)
  then have "getPermissions blog_engine a_stranger = new_Set (subject_permissions a_stranger)"
    and "can blog_engine a_stranger ''any:permission'' ''x'' 0
        = can (blog_engine\<lparr>engine_roles := []\<rparr>) a_stranger ''any:permission'' ''x'' 0"
    using unknown_roles_skipped [of _ _ _ blog_engine a_stranger "''any:permission''" "''x''" 0]
    by blast+
  then show ?thesis
    by (simp add: a_stranger_def can_def getPermissions_def new_Set_def)
qed

text \<open>
  C9 (corrected). The claim: evaluating \<^verbatim>\<open>can\<close> mutates nothing, neither the subject nor
  the registries. The code of \<^verbatim>\<open>can\<close> and \<^verbatim>\<open>getPermissions\<close> indeed writes to neither, but
  it calls the policy with the caller's subject, and the policy may write. What holds: when
  the permission is not matched, or no policy is registered under it, the heap after the
  call is the heap before it, and so are the engine and the subject in it; when a policy is
  invoked, the heap after the call is the heap as the policy left it. \<^verbatim>\<open>addRole\<close> does not
  touch the policies and replaces, in the role registry, the one entry under the role's
  name: every other name keeps its role, and the list of names stays as it is when the name
  was registered before and gets the name at its end otherwise. \<^verbatim>\<open>addPolicy\<close> does the same
  to the policy registry under the given permission string, and does not touch the roles.
\<close>

theorem can_writes_only_through_policy:
  "(((\<forall>pat \<in> effectivePermissions (engine_roles (engine_at h)) (subject_at h).
         \<not> Permission_match pat permission)
      \<or> map_of (engine_policies (engine_at h)) permission = None) \<longrightarrow>
     snd (can_by_reference engine_at subject_at permission ctx h) = h)
   \<and> ((\<exists>pat \<in> effectivePermissions (engine_roles (engine_at h)) (subject_at h).
          Permission_match pat permission)
        \<and> map_of (engine_policies (engine_at h)) permission = Some policy \<longrightarrow>
      snd (can_by_reference engine_at subject_at permission ctx h)
        = snd (policy (subject_at h) ctx h))
   \<and> engine_policies (addRole role e) = engine_policies e
   \<and> map_of (engine_roles (addRole role e)) = (map_of (engine_roles e))(role_name role \<mapsto> role)
   \<and> map fst (engine_roles (addRole role e)) =
        (if role_name role \<in> set (map fst (engine_roles e)) then map fst (engine_roles e)
         else map fst (engine_roles e) @ [role_name role])
   \<and> engine_roles (addPolicy p policyCallback e) = engine_roles e
   \<and> map_of (engine_policies (addPolicy p policyCallback e)) =
        (map_of (engine_policies e))(p \<mapsto> policyCallback)
   \<and> map fst (engine_policies (addPolicy p policyCallback e)) =
        (if p \<in> set (map fst (engine_policies e)) then map fst (engine_policies e)
         else map fst (engine_policies e) @ [p])"
proof (intro conjI impI)
  let ?m = "list_ex (\<lambda>perm. Permission_match perm permission)
              (getPermissions (engine_at h) (subject_at h))"
  assume "(\<forall>pat \<in> effectivePermissions (engine_roles (engine_at h)) (subject_at h).
             \<not> Permission_match pat permission)
          \<or> map_of (engine_policies (engine_at h)) permission = None"
  then have "\<not> ?m \<or> map_of (engine_policies (engine_at h)) permission = None"
    by (simp add: matched_iff)
  then show "snd (can_by_reference engine_at subject_at permission ctx h) = h"
    by (auto simp add: can_by_reference_def can_def)
next
  assume "(\<exists>pat \<in> effectivePermissions (engine_roles (engine_at h)) (subject_at h).
            Permission_match pat permission)
          \<and> map_of (engine_policies (engine_at h)) permission = Some policy"
  then show "snd (can_by_reference engine_at subject_at permission ctx h)
        = snd (policy (subject_at h) ctx h)"
    by (simp add: can_by_reference_def can_def matched_iff split: prod.splits sum.splits)
qed (simp_all add: addRole_def addPolicy_def update_conv' update_keys)

theorem can_writes_only_through_policy_witness:
  "snd (can_by_reference promoting_engine heap_subject ''post:delete'' ''x'' a_heap) = a_heap
   \<and> snd (can_by_reference promoting_engine heap_subject ''post:edit'' ''x'' a_heap)
       = snd (promoting_policy a_user ''x'' a_heap)
   \<and> map_of (engine_roles (addRole viewer_redefined blog_engine)) ''viewer'' = Some viewer_redefined
   \<and> map_of (engine_roles (addRole viewer_redefined blog_engine)) ''editor'' = Some editor
   \<and> map fst (engine_roles (addRole viewer_redefined blog_engine)) = [''viewer'', ''editor'']
   \<and> engine_policies (addRole viewer_redefined blog_engine) = engine_policies blog_engine"
proof -
  note registration = can_writes_only_through_policy
    [where role = viewer_redefined and e = blog_engine, THEN conjunct2, THEN conjunct2]
  have name: "role_name viewer_redefined = ''viewer''"
    by (simp add: viewer_redefined_def)
  have keys: "map fst (engine_roles blog_engine) = [''viewer'', ''editor'']"
    and ed: "map_of (engine_roles blog_engine) ''editor'' = Some editor"
    by (simp_all add: blog_defs)
  have re: "map_of (engine_roles (addRole viewer_redefined blog_engine)) ''viewer'' = Some viewer_redefined
      \<and> map_of (engine_roles (addRole viewer_redefined blog_engine)) ''editor'' = Some editor
      \<and> map fst (engine_roles (addRole viewer_redefined blog_engine)) = [''viewer'', ''editor'']
      \<and> engine_policies (addRole viewer_redefined blog_engine) = engine_policies blog_engine"
    using registration [THEN conjunct1] registration [THEN conjunct2, THEN conjunct1]
      registration [THEN conjunct2, THEN conjunct2, THEN conjunct1] name keys ed
    by simp
  have eff: "effectivePermissions (engine_roles (promoting_engine a_heap)) (heap_subject a_heap)
      = {''post:edit''}"
    using getPermissions_effective [of "promoting_engine a_heap" "heap_subject a_heap"]
    by (simp add: getPermissions_a_heap)
  have none: "\<forall>pat \<in> effectivePermissions (engine_roles (promoting_engine a_heap))
                (heap_subject a_heap). \<not> Permission_match pat ''post:delete''"
    unfolding eff by (simp add: match_simps)
  have some: "\<exists>pat \<in> effectivePermissions (engine_roles (promoting_engine a_heap))
                (heap_subject a_heap). Permission_match pat ''post:edit''"
    unfolding eff by (simp add: Permission_match_def)
  have reg: "map_of (engine_policies (promoting_engine a_heap)) ''post:edit'' = Some promoting_policy"
    by (simp add: promoting_engine_def)
  have subj: "heap_subject a_heap = a_user"
    by (simp add: a_heap_def)
  have "snd (can_by_reference promoting_engine heap_subject ''post:delete'' ''x'' a_heap) = a_heap"
    using can_writes_only_through_policy
      [of promoting_engine a_heap heap_subject "''post:delete''" "''x''", THEN conjunct1] none
    by blast
  moreover have "snd (can_by_reference promoting_engine heap_subject ''post:edit'' ''x'' a_heap)
       = snd (promoting_policy (heap_subject a_heap) ''x'' a_heap)"
    using can_writes_only_through_policy
      [of promoting_engine a_heap heap_subject "''post:edit''" "''x''" promoting_policy,
       THEN conjunct2, THEN conjunct1] some reg
    by blast
  ultimately show ?thesis
    using re by (simp add: subj)
qed

text \<open>
  The claim as stated fails for a policy that writes: the request is allowed, and after
  the call the subject has the role \<^verbatim>\<open>admin\<close> in its \<^verbatim>\<open>roles\<close> and the role registry has an
  entry \<^verbatim>\<open>admin\<close>, neither of which was there before.
\<close>

theorem policy_writes_during_can_counterexample:
  "fst (can_by_reference promoting_engine heap_subject ''post:edit'' ''x'' a_heap)
     = Inr \<lparr>auth_allowed = True, auth_reason = None, auth_permission = ''post:edit''\<rparr>
   \<and> subject_roles (heap_subject a_heap) = [''user'']
   \<and> subject_roles (heap_subject
        (snd (can_by_reference promoting_engine heap_subject ''post:edit'' ''x'' a_heap)))
       = [''user'', ''admin'']
   \<and> map_of (engine_roles (promoting_engine a_heap)) ''admin'' = None
   \<and> map_of (engine_roles (promoting_engine
        (snd (can_by_reference promoting_engine heap_subject ''post:edit'' ''x'' a_heap)))) ''admin''
       = Some admin"
proof -
  have reg: "map_of (engine_policies (promoting_engine a_heap)) ''post:edit'' = Some promoting_policy"
    by (simp add: promoting_engine_def)
  have "can_by_reference promoting_engine heap_subject ''post:edit'' ''x'' a_heap
      = (Inr \<lparr>auth_allowed = True, auth_reason = None, auth_permission = ''post:edit''\<rparr>,
         snd (promoting_policy (heap_subject a_heap) ''x'' a_heap))"
    by (simp add: can_by_reference_def can_def getPermissions_a_heap Permission_match_def reg
        promoting_policy_def)
  then show ?thesis
    by (simp add: promoting_engine_def promoting_policy_def a_heap_def a_user_def admin_def)
qed

text \<open>
  C10 (corrected). The claim: the result of \<^verbatim>\<open>can\<close> does not change when
  \<^verbatim>\<open>subject.roles\<close> is permuted or lists a name twice, or when an \<^verbatim>\<open>inherits\<close> list repeats
  an entry. The permission set, and with it the first stage of the decision, is indeed the
  same. The policy, however, is called with the subject as the caller passed it, and may
  tell the two role lists apart. What holds: for every rewriting \<open>f\<close> of the \<^verbatim>\<open>inherits\<close>
  lists and every role list \<open>rs\<close> that keep the sets of their entries, the permission set
  is the same, and the result of \<^verbatim>\<open>can\<close> is the same whenever the policy registered under
  the requested permission, if there is one, returns the same for both subjects.
\<close>

theorem can_invariant_under_role_lists:
  assumes "\<forall>xs. set (f xs) = set xs" and "set rs = set (subject_roles subject)"
  shows "set (getPermissions (e\<lparr>engine_roles := with_inherits f (engine_roles e)\<rparr>)
                (subject\<lparr>subject_roles := rs\<rparr>))
           = set (getPermissions e subject)
         \<and> ((\<forall>policy. map_of (engine_policies e) permission = Some policy \<longrightarrow>
                policy (subject\<lparr>subject_roles := rs\<rparr>) ctx w = policy subject ctx w) \<longrightarrow>
             can (e\<lparr>engine_roles := with_inherits f (engine_roles e)\<rparr>)
                 (subject\<lparr>subject_roles := rs\<rparr>) permission ctx w
               = can e subject permission ctx w)"
proof (intro conjI impI)
  let ?e' = "e\<lparr>engine_roles := with_inherits f (engine_roles e)\<rparr>"
  let ?s' = "subject\<lparr>subject_roles := rs\<rparr>"
  show sets: "set (getPermissions ?e' ?s') = set (getPermissions e subject)"
    using effective_same_lists [OF assms] by (simp add: getPermissions_effective)
  assume pol: "\<forall>policy. map_of (engine_policies e) permission = Some policy \<longrightarrow>
                 policy ?s' ctx w = policy subject ctx w"
  have m: "list_ex (\<lambda>perm. Permission_match perm permission) (getPermissions ?e' ?s')
      = list_ex (\<lambda>perm. Permission_match perm permission) (getPermissions e subject)"
    using sets by (simp add: list_ex_iff)
  show "can ?e' ?s' permission ctx w = can e subject permission ctx w"
  proof (cases "map_of (engine_policies e) permission")
    case None
    then show ?thesis
      using m by (simp add: can_def)
  next
    case (Some policy)
    with pol have "policy ?s' ctx w = policy subject ctx w"
      by simp
    then show ?thesis
      using m Some by (simp add: can_def)
  qed
qed

theorem can_invariant_under_role_lists_witness:
  "can (blog_engine\<lparr>engine_roles := with_inherits (\<lambda>xs. xs @ xs) (engine_roles blog_engine)\<rparr>)
       (an_editor\<lparr>subject_roles := [''editor'', ''editor'']\<rparr>) ''post:edit'' ''user-1'' 0
   = can blog_engine an_editor ''post:edit'' ''user-1'' 0"
proof -
  have "\<forall>xs :: string list. set (xs @ xs) = set xs"
    by simp
  moreover have "set [''editor'', ''editor''] = set (subject_roles an_editor)"
    by (simp add: an_editor_def)
  moreover have "\<forall>policy. map_of (engine_policies blog_engine) ''post:edit'' = Some policy \<longrightarrow>
      policy (an_editor\<lparr>subject_roles := [''editor'', ''editor'']\<rparr>) ''user-1'' 0
        = policy an_editor ''user-1'' 0"
    by (simp add: policies_blog ownership_policy_def)
  ultimately show ?thesis
    using can_invariant_under_role_lists [of "\<lambda>xs. xs @ xs" "[''editor'', ''editor'']" an_editor
        blog_engine "''post:edit''" "''user-1''" 0]
    by blast
qed

text \<open>
  The claim as stated fails for a policy that allows a subject with exactly one entry in
  \<^verbatim>\<open>roles\<close>: listing the role \<^verbatim>\<open>user\<close> a second time turns the allowed request into one
  denied by policy.
\<close>

theorem roles_duplication_counterexample:
  "set (subject_roles (a_user\<lparr>subject_roles := [''user'', ''user'']\<rparr>)) = set (subject_roles a_user)
   \<and> can single_role_engine a_user ''post:edit'' ''x'' 0 =
       (Inr \<lparr>auth_allowed = True, auth_reason = None, auth_permission = ''post:edit''\<rparr>, 0)
   \<and> can single_role_engine (a_user\<lparr>subject_roles := [''user'', ''user'']\<rparr>) ''post:edit'' ''x'' 0 =
       (Inr \<lparr>auth_allowed = False, auth_reason = Some ''Access denied by policy'',
             auth_permission = ''post:edit''\<rparr>, 0)"
  by (simp add: can_def getPermissions_def single_role_engine_def a_user_def user_role_def
      single_role_policy_def addRole_def addPolicy_def new_RBACEngine_def visited.simps
      new_Set_def set_add_def Permission_match_def)

end
